theory Spec2Isabelle
  imports Main "HOL-Library.Char_ord" "HOL-Library.List_Lexorder"
begin

section \<open>Data model\<close>

text \<open>
  A label map is the TypeScript type \<^verbatim>\<open>Record<string, string>\<close>, at run time a plain
  JavaScript object. The partial map holds its own properties, which are strings.
  What the object inherits from \<^verbatim>\<open>Object.prototype\<close> is added where the code reads
  or writes a property, see \<open>get_prop\<close> and \<open>set_prop\<close> below.
\<close>

type_synonym labels = "string \<rightharpoonup> string"

text \<open>
  What a property read can yield besides \<^verbatim>\<open>undefined\<close>: a string, or the member of
  \<^verbatim>\<open>Object.prototype\<close> of the given name, which is a function, and for \<^verbatim>\<open>__proto__\<close>
  the prototype object itself. Two such members are the same object exactly when
  their names are the same.
\<close>

datatype js_value = Str string | Proto string

text \<open>
  \<^verbatim>\<open>GceResource\<close>: the fields the labelling and grouping code reads. The record is
  extensible, every other field of the resource is opaque payload.
\<close>

record resource =
  res_id :: string
  name :: string
  labels :: labels

datatype Mode = STATIC | PATTERN | REGEX | CLEANUP

text \<open>
  The \<^verbatim>\<open>Change\<close> union of \<^verbatim>\<open>previewData\<close>. The old value of a record is whatever
  the property read gave.
\<close>

datatype Change =
    ADD string string
  | UPDATE string js_value string
  | DELETE string js_value

text \<open>
  The rows of the four configuration lists: \<^verbatim>\<open>{key, value}\<close>, \<^verbatim>\<open>{position, key}\<close>,
  \<^verbatim>\<open>{index, key}\<close>, written as pairs in the order of their fields. Positions and group
  indices are JavaScript numbers, here integers; a negative one indexes nothing.
\<close>

type_synonym static_label = "string \<times> string"
type_synonym mapping = "int \<times> string"
type_synonym regex_group = "int \<times> string"

text \<open>
  The regular-expression engine is the language's, not the program's. A compiled
  expression is represented by what \<^verbatim>\<open>name.match(regex)\<close> returns for it: \<open>None\<close> for
  \<^verbatim>\<open>null\<close>, otherwise the match array, whose entry \<open>0\<close> is the whole match and whose
  entry \<open>i\<close> is the text of group \<open>i\<close>, or \<open>None\<close> (\<^verbatim>\<open>undefined\<close>) when the group did
  not participate. The constructor \<^verbatim>\<open>new RegExp\<close> is a parameter of the model: it
  returns the compiled expression or throws \<^verbatim>\<open>SyntaxError\<close>.
\<close>

datatype rx_error = SyntaxError

type_synonym match_array = "string option list"
type_synonym regexp = "string \<Rightarrow> match_array option"
type_synonym regexp_ctor = "string \<Rightarrow> rx_error + regexp"

text \<open>The component state that \<^verbatim>\<open>previewData\<close> and \<^verbatim>\<open>isValid\<close> depend on.\<close>

record studio =
  mode :: Mode
  staticLabels :: "static_label list"
  delimiter :: string
  mappings :: "mapping list"
  regexPattern :: string
  regexGroups :: "regex_group list"
  keysToRemove :: "string list"

text \<open>An entry of the \<^verbatim>\<open>updates\<close> map of \<^verbatim>\<open>previewData\<close>.\<close>

record preview =
  original :: labels
  new :: labels
  changes :: "Change list"

section \<open>JavaScript built-ins used by the code\<close>

text \<open>
  A JavaScript \<^verbatim>\<open>Map\<close>: keys in insertion order, \<^verbatim>\<open>set\<close> on an existing key replaces
  the value in place.
\<close>

type_synonym ('k, 'v) js_map = "('k \<times> 'v) list"

fun map_set :: "('k, 'v) js_map \<Rightarrow> 'k \<Rightarrow> 'v \<Rightarrow> ('k, 'v) js_map" where
  "map_set [] k v = [(k, v)]"
| "map_set ((k', v') # m) k v =
     (if k' = k then (k, v) # m else (k', v') # map_set m k v)"

definition map_get :: "('k, 'v) js_map \<Rightarrow> 'k \<Rightarrow> 'v option" where
  "map_get m k = map_of m k"

definition map_keys :: "('k, 'v) js_map \<Rightarrow> 'k list" where
  "map_keys m = map fst m"

text \<open>
  The property names of \<^verbatim>\<open>Object.prototype\<close>. All are function-valued data
  properties but the accessor \<^verbatim>\<open>__proto__\<close>.
\<close>

definition object_prototype_names :: "string list" where
  "object_prototype_names =
     [''constructor'', ''hasOwnProperty'', ''isPrototypeOf'', ''propertyIsEnumerable'',
      ''toLocaleString'', ''toString'', ''valueOf'', ''__proto__'',
      ''__defineGetter__'', ''__defineSetter__'', ''__lookupGetter__'', ''__lookupSetter__'']"

text \<open>
  The read \<^verbatim>\<open>obj[key]\<close> on a label object: an own property first, then the
  prototype, else \<^verbatim>\<open>undefined\<close>.
\<close>

definition get_prop :: "labels \<Rightarrow> string \<Rightarrow> js_value option" where
  "get_prop obj key =
     (case obj key of
        Some v \<Rightarrow> Some (Str v)
      | None \<Rightarrow> if key \<in> set object_prototype_names then Some (Proto key) else None)"

text \<open>
  The write \<^verbatim>\<open>obj[key] = value\<close> of a string. On an object without an own property
  \<^verbatim>\<open>__proto__\<close> the write of that key runs the inherited setter, which ignores a
  string and stores nothing. Every other write creates or replaces an own property.
  The statement \<^verbatim>\<open>delete obj[key]\<close> removes an own property and is \<open>obj(key := None)\<close>.
\<close>

definition set_prop :: "labels \<Rightarrow> string \<Rightarrow> string \<Rightarrow> labels" where
  "set_prop obj key v =
     (if key = ''__proto__'' \<and> obj key = None then obj else obj(key \<mapsto> v))"

text \<open>Array indexing \<^verbatim>\<open>xs[i]\<close>: \<^verbatim>\<open>undefined\<close> outside \<open>0 .. length - 1\<close>.\<close>

definition at_index :: "'a list \<Rightarrow> int \<Rightarrow> 'a option" where
  "at_index xs i = (if 0 \<le> i \<and> i < int (length xs) then Some (xs ! nat i) else None)"

text \<open>
  \<^verbatim>\<open>String.prototype.split\<close> with a string separator and no limit. With the empty
  separator the string falls into its single characters. Otherwise the string is
  scanned from the left; \<open>split_from sep acc rest\<close> holds the current token reversed
  in \<open>acc\<close>.
\<close>

function split_from :: "string \<Rightarrow> string \<Rightarrow> string \<Rightarrow> string list" where
  "split_from sep acc [] = [rev acc]"
| "split_from sep acc (c # cs) =
     (if sep \<noteq> [] \<and> take (length sep) (c # cs) = sep
      then rev acc # split_from sep [] (drop (length sep) (c # cs))
      else split_from sep (c # acc) cs)"
  by pat_completeness auto
termination
  by (relation "measure (\<lambda>(sep, acc, rest). length rest)") auto

definition js_split :: "string \<Rightarrow> string \<Rightarrow> string list" where
  "js_split s sep = (if sep = [] then map (\<lambda>c. [c]) s else split_from sep [] s)"

section \<open>The preview computation of the Labeling Studio\<close>

text \<open>
  \<^verbatim>\<open>processChange(key, value)\<close> reads \<^verbatim>\<open>r.labels[key]\<close> of the resource, \<open>orig\<close>,
  appends to \<^verbatim>\<open>changes\<close> and writes \<^verbatim>\<open>newLabels[key]\<close>. The pair is the state
  (\<^verbatim>\<open>newLabels\<close>, \<^verbatim>\<open>changes\<close>) of one resource; \<^verbatim>\<open>newLabels\<close> starts as the
  spread copy of \<^verbatim>\<open>r.labels\<close>, which has the same own properties.
\<close>

type_synonym acc = "labels \<times> Change list"

definition processChange :: "labels \<Rightarrow> string \<Rightarrow> string \<Rightarrow> acc \<Rightarrow> acc" where
  "processChange orig key v s =
     (case s of (newLabels, chs) \<Rightarrow>
        (set_prop newLabels key v,
         (case get_prop orig key of
            None \<Rightarrow> chs @ [ADD key v]
          | Some old \<Rightarrow> if old \<noteq> Str v then chs @ [UPDATE key old v] else chs)))"

text \<open>The bodies of the four \<^verbatim>\<open>forEach\<close> loops. A string is truthy when non-empty.\<close>

definition staticStep :: "labels \<Rightarrow> static_label \<Rightarrow> acc \<Rightarrow> acc" where
  "staticStep orig row s =
     (case row of (key, v) \<Rightarrow>
        if key \<noteq> [] \<and> v \<noteq> [] then processChange orig key v s else s)"

definition patternStep :: "labels \<Rightarrow> string list \<Rightarrow> mapping \<Rightarrow> acc \<Rightarrow> acc" where
  "patternStep orig parts row s =
     (case row of (position, key) \<Rightarrow>
        (case at_index parts position of
           Some part \<Rightarrow> if key \<noteq> [] \<and> part \<noteq> [] then processChange orig key part s else s
         | None \<Rightarrow> s))"

definition regexStep :: "labels \<Rightarrow> match_array \<Rightarrow> regex_group \<Rightarrow> acc \<Rightarrow> acc" where
  "regexStep orig m row s =
     (case row of (index, key) \<Rightarrow>
        (case at_index m index of
           Some (Some g) \<Rightarrow> if key \<noteq> [] \<and> g \<noteq> [] then processChange orig key g s else s
         | _ \<Rightarrow> s))"

definition cleanupStep :: "string \<Rightarrow> acc \<Rightarrow> acc" where
  "cleanupStep k s =
     (case s of (newLabels, chs) \<Rightarrow>
        if k \<noteq> [] then
          (case get_prop newLabels k of
             Some old \<Rightarrow> (newLabels(k := None), chs @ [DELETE k old])
           | None \<Rightarrow> s)
        else s)"

text \<open>
  The body of \<^verbatim>\<open>selectedResources.forEach\<close> up to the test on \<^verbatim>\<open>changes.length\<close>:
  the candidate label map and the change list of one resource. \<open>regex\<close> is the
  variable of that name, \<open>None\<close> for \<^verbatim>\<open>null\<close>.
\<close>

definition resourcePreview :: "studio \<Rightarrow> regexp option \<Rightarrow> resource \<Rightarrow> acc" where
  "resourcePreview st regex r =
     (let s0 = (labels r, []) in
      if mode st = STATIC then fold (staticStep (labels r)) (staticLabels st) s0
      else if mode st = PATTERN then
        (let parts = js_split (name r) (delimiter st)
         in fold (patternStep (labels r) parts) (mappings st) s0)
      else if mode st = REGEX \<and> regex \<noteq> None then
        (case regex of
           Some rx \<Rightarrow>
             (case rx (name r) of
                Some m \<Rightarrow> fold (regexStep (labels r) m) (regexGroups st) s0
              | None \<Rightarrow> s0)
         | None \<Rightarrow> s0)
      else if mode st = CLEANUP then fold cleanupStep (keysToRemove st) s0
      else s0)"

text \<open>
  The \<^verbatim>\<open>try\<close>/\<^verbatim>\<open>catch\<close> around \<^verbatim>\<open>new RegExp(regexPattern)\<close>: only in mode
  \<^verbatim>\<open>REGEX\<close>, an exception leaves \<^verbatim>\<open>regex\<close> at \<^verbatim>\<open>null\<close>.
\<close>

definition compileRegex :: "regexp_ctor \<Rightarrow> studio \<Rightarrow> regexp option" where
  "compileRegex new_RegExp st =
     (if mode st = REGEX then
        (case new_RegExp (regexPattern st) of Inl e \<Rightarrow> None | Inr rx \<Rightarrow> Some rx)
      else None)"

definition previewStep ::
  "studio \<Rightarrow> regexp option \<Rightarrow> resource \<Rightarrow> (string, preview) js_map \<Rightarrow> (string, preview) js_map"
where
  "previewStep st regex r updates =
     (case resourcePreview st regex r of (newLabels, chs) \<Rightarrow>
        if length chs > 0
        then map_set updates (res_id r) \<lparr>original = labels r, new = newLabels, changes = chs\<rparr>
        else updates)"

definition previewData ::
  "regexp_ctor \<Rightarrow> studio \<Rightarrow> resource list \<Rightarrow> (string, preview) js_map"
where
  "previewData new_RegExp st selectedResources =
     fold (previewStep st (compileRegex new_RegExp st)) selectedResources []"

text \<open>\<^verbatim>\<open>handleApply\<close>: the map handed to \<^verbatim>\<open>onApply\<close>.\<close>

definition handleApply :: "(string, preview) js_map \<Rightarrow> (string, labels) js_map" where
  "handleApply pd = fold (\<lambda>(key, val) updates. map_set updates key (new val)) pd []"

section \<open>The validity gate\<close>

text \<open>
  \<^verbatim>\<open>validateKey\<close> and \<^verbatim>\<open>validateValue\<close> come from \<^verbatim>\<open>utils/validation\<close> and are
  parameters here: each returns an error message or \<^verbatim>\<open>null\<close>. The code tests the
  result for truthiness, so the empty message counts as no error.
\<close>

type_synonym validator = "string \<Rightarrow> string option"

definition truthy :: "string option \<Rightarrow> bool" where
  "truthy e = (case e of Some msg \<Rightarrow> msg \<noteq> [] | None \<Rightarrow> False)"

definition staticLabelErrors ::
  "validator \<Rightarrow> validator \<Rightarrow> static_label list \<Rightarrow> (string option \<times> string option) list"
where
  "staticLabelErrors validateKey validateValue rows =
     map (\<lambda>(key, v).
            if key = [] \<and> v = [] then (None, None)
            else (validateKey key, validateValue v)) rows"

definition isValid :: "validator \<Rightarrow> validator \<Rightarrow> studio \<Rightarrow> bool" where
  "isValid validateKey validateValue st =
     (if mode st = STATIC then
        (let validRows = filter (\<lambda>(key, v). key \<noteq> [] \<and> \<not> truthy (validateKey key)
                                     \<and> \<not> truthy (validateValue v)) (staticLabels st);
             hasErrors = list_ex (\<lambda>(ek, ev). truthy ek \<or> truthy ev)
                           (staticLabelErrors validateKey validateValue (staticLabels st))
         in length validRows > 0 \<and> \<not> hasErrors)
      else if mode st = PATTERN then list_ex (\<lambda>(position, key). key \<noteq> []) (mappings st)
      else if mode st = REGEX then list_ex (\<lambda>(index, key). key \<noteq> []) (regexGroups st)
      else if mode st = CLEANUP then list_ex (\<lambda>k. k \<noteq> []) (keysToRemove st)
      else False)"

text \<open>
  The gate as the specification words it, for comparison with \<open>isValid\<close>: Static
  needs a row with a non-empty key and a non-empty value that both pass validation,
  and no validation error among the rows with a non-empty key.
\<close>

definition isValid_spec :: "validator \<Rightarrow> validator \<Rightarrow> studio \<Rightarrow> bool" where
  "isValid_spec validateKey validateValue st =
     (case mode st of
        STATIC \<Rightarrow>
          list_ex (\<lambda>(key, v). key \<noteq> [] \<and> v \<noteq> [] \<and> \<not> truthy (validateKey key)
                       \<and> \<not> truthy (validateValue v)) (staticLabels st)
          \<and> \<not> list_ex (\<lambda>(key, v). key \<noteq> [] \<and> (truthy (validateKey key)
                       \<or> truthy (validateValue v))) (staticLabels st)
      | PATTERN \<Rightarrow> list_ex (\<lambda>(position, key). key \<noteq> []) (mappings st)
      | REGEX \<Rightarrow> list_ex (\<lambda>(index, key). key \<noteq> []) (regexGroups st)
      | CLEANUP \<Rightarrow> list_ex (\<lambda>k. k \<noteq> []) (keysToRemove st))"

section \<open>Grouping and pagination of the resource table\<close>

text \<open>
  A display item. The key and the label of a header are the key of the group in the
  \<^verbatim>\<open>Map\<close>, which is whatever the property read gave.
\<close>

datatype DisplayItem =
    Header js_value js_value nat bool
  | Resource resource

text \<open>
  \<^verbatim>\<open>r.labels[groupByLabel] || noLabelKey\<close>: an empty string is falsy, an inherited
  member is truthy.
\<close>

definition groupValue :: "string \<Rightarrow> resource \<Rightarrow> js_value" where
  "groupValue groupByLabel r =
     (case get_prop (labels r) groupByLabel of
        Some (Str v) \<Rightarrow> if v \<noteq> [] then Str v else Str ''Unassigned''
      | Some (Proto n) \<Rightarrow> Proto n
      | None \<Rightarrow> Str ''Unassigned'')"

definition groupStep ::
  "string \<Rightarrow> resource \<Rightarrow> (js_value, resource list) js_map \<Rightarrow> (js_value, resource list) js_map"
where
  "groupStep groupByLabel r groups =
     (let val = groupValue groupByLabel r;
          groups1 = (if map_get groups val = None then map_set groups val [] else groups)
      in case map_get groups1 val of
           Some members \<Rightarrow> map_set groups1 val (members @ [r])
         | None \<Rightarrow> groups1)"

definition flattenStep ::
  "(js_value, resource list) js_map \<Rightarrow> js_value set \<Rightarrow> js_value
     \<Rightarrow> DisplayItem list \<Rightarrow> DisplayItem list"
where
  "flattenStep groups collapsedGroups key items =
     (case map_get groups key of
        Some groupResources \<Rightarrow>
          (let isCollapsed = key \<in> collapsedGroups
           in (items @ [Header key key (length groupResources) isCollapsed])
                @ (if \<not> isCollapsed then map Resource groupResources else []))
      | None \<Rightarrow> items)"

text \<open>
  \<^verbatim>\<open>Array.prototype.sort\<close> without a comparator is a stable sort by the string that
  each element converts to, in the order of code units, here the lexicographic order
  of character lists. The string of an inherited member is the engine's; \<open>toText\<close>
  gives it for the member of each name and is a parameter.
\<close>

definition js_text :: "(string \<Rightarrow> string) \<Rightarrow> js_value \<Rightarrow> string" where
  "js_text toText x = (case x of Str s \<Rightarrow> s | Proto n \<Rightarrow> toText n)"

definition displayItems ::
  "(string \<Rightarrow> string) \<Rightarrow> resource list \<Rightarrow> string \<Rightarrow> js_value set \<Rightarrow> DisplayItem list"
where
  "displayItems toText filteredResources groupByLabel collapsedGroups =
     (if groupByLabel = [] then map Resource filteredResources
      else
        (let groups = fold (groupStep groupByLabel) filteredResources [];
             sortedKeys = sort_key (js_text toText) (map_keys groups)
         in fold (flattenStep groups collapsedGroups) sortedKeys []))"

text \<open>
  \<^verbatim>\<open>Math.ceil(totalItems / itemsPerPage)\<close> for a positive page size. The page size
  comes from the hook \<^verbatim>\<open>useResourceFilter\<close> and is a parameter.
\<close>

definition totalPages :: "nat \<Rightarrow> nat \<Rightarrow> nat" where
  "totalPages totalItems itemsPerPage = (totalItems + itemsPerPage - 1) div itemsPerPage"

text \<open>The effect that follows a change of \<^verbatim>\<open>totalPages\<close>: the page it leaves current.\<close>

definition pageEffect :: "int \<Rightarrow> nat \<Rightarrow> int" where
  "pageEffect currentPage pages =
     (if currentPage > int pages \<and> pages > 0 then 1 else currentPage)"

text \<open>\<^verbatim>\<open>Array.prototype.slice(start, end)\<close>; a negative index counts from the end.\<close>

definition js_slice :: "'a list \<Rightarrow> int \<Rightarrow> int \<Rightarrow> 'a list" where
  "js_slice xs start fin =
     (let n = int (length xs);
          k = (if start < 0 then max (n + start) 0 else min start n);
          f = (if fin < 0 then max (n + fin) 0 else min fin n)
      in take (nat (f - k)) (drop (nat k) xs))"

definition paginatedDisplayItems :: "DisplayItem list \<Rightarrow> int \<Rightarrow> nat \<Rightarrow> DisplayItem list" where
  "paginatedDisplayItems items currentPage itemsPerPage =
     (let startIndex = (currentPage - 1) * int itemsPerPage
      in js_slice items startIndex (startIndex + int itemsPerPage))"

text \<open>
  One render of the table with the page that is current when it starts: the slice
  that this render shows, and the page that the effect scheduled by it leaves for
  the next render. The effect runs after the render.
\<close>

definition renderPage :: "DisplayItem list \<Rightarrow> int \<Rightarrow> nat \<Rightarrow> DisplayItem list \<times> int" where
  "renderPage items currentPage itemsPerPage =
     (paginatedDisplayItems items currentPage itemsPerPage,
      pageEffect currentPage (totalPages (length items) itemsPerPage))"

section \<open>The preview computation with the object store explicit\<close>

text \<open>
  Label maps are JavaScript objects and the code holds references to them:
  \<^verbatim>\<open>newLabels = { ...r.labels }\<close> allocates a copy, \<^verbatim>\<open>processChange\<close> and
  \<^verbatim>\<open>delete\<close> write to it, and the preview entry keeps \<^verbatim>\<open>r.labels\<close> itself under
  \<^verbatim>\<open>original\<close>. Here the store is the list of all label objects, a reference is an
  index into it, and allocation appends. The functions below are the ones above with
  every read and write of a label object going through the store.
\<close>

type_synonym ref = nat
type_synonym store = "labels list"

record h_resource =
  h_id :: string
  h_name :: string
  h_labels :: ref

record h_preview =
  h_original :: ref
  h_new :: ref
  h_changes :: "Change list"

type_synonym h_acc = "store \<times> Change list"

definition h_processChange :: "ref \<Rightarrow> ref \<Rightarrow> string \<Rightarrow> string \<Rightarrow> h_acc \<Rightarrow> h_acc" where
  "h_processChange lr nr key v s =
     (case s of (h, chs) \<Rightarrow>
        (h[nr := set_prop (h ! nr) key v],
         (case get_prop (h ! lr) key of
            None \<Rightarrow> chs @ [ADD key v]
          | Some old \<Rightarrow> if old \<noteq> Str v then chs @ [UPDATE key old v] else chs)))"

definition h_staticStep :: "ref \<Rightarrow> ref \<Rightarrow> static_label \<Rightarrow> h_acc \<Rightarrow> h_acc" where
  "h_staticStep lr nr row s =
     (case row of (key, v) \<Rightarrow>
        if key \<noteq> [] \<and> v \<noteq> [] then h_processChange lr nr key v s else s)"

definition h_patternStep :: "ref \<Rightarrow> ref \<Rightarrow> string list \<Rightarrow> mapping \<Rightarrow> h_acc \<Rightarrow> h_acc" where
  "h_patternStep lr nr parts row s =
     (case row of (position, key) \<Rightarrow>
        (case at_index parts position of
           Some part \<Rightarrow> if key \<noteq> [] \<and> part \<noteq> [] then h_processChange lr nr key part s else s
         | None \<Rightarrow> s))"

definition h_regexStep :: "ref \<Rightarrow> ref \<Rightarrow> match_array \<Rightarrow> regex_group \<Rightarrow> h_acc \<Rightarrow> h_acc" where
  "h_regexStep lr nr m row s =
     (case row of (index, key) \<Rightarrow>
        (case at_index m index of
           Some (Some g) \<Rightarrow> if key \<noteq> [] \<and> g \<noteq> [] then h_processChange lr nr key g s else s
         | _ \<Rightarrow> s))"

definition h_cleanupStep :: "ref \<Rightarrow> string \<Rightarrow> h_acc \<Rightarrow> h_acc" where
  "h_cleanupStep nr k s =
     (case s of (h, chs) \<Rightarrow>
        if k \<noteq> [] then
          (case get_prop (h ! nr) k of
             Some old \<Rightarrow> (h[nr := (h ! nr)(k := None)], chs @ [DELETE k old])
           | None \<Rightarrow> s)
        else s)"

text \<open>
  One resource: the copy is allocated at the end of the store, its reference is
  \<open>length h\<close>. The result is the store after the loop body and the change list.
\<close>

definition h_resourcePreview :: "studio \<Rightarrow> regexp option \<Rightarrow> h_resource \<Rightarrow> store \<Rightarrow> h_acc" where
  "h_resourcePreview st regex r h =
     (let lr = h_labels r; nr = length h; s0 = (h @ [h ! lr], []) in
      if mode st = STATIC then fold (h_staticStep lr nr) (staticLabels st) s0
      else if mode st = PATTERN then
        (let parts = js_split (h_name r) (delimiter st)
         in fold (h_patternStep lr nr parts) (mappings st) s0)
      else if mode st = REGEX \<and> regex \<noteq> None then
        (case regex of
           Some rx \<Rightarrow>
             (case rx (h_name r) of
                Some m \<Rightarrow> fold (h_regexStep lr nr m) (regexGroups st) s0
              | None \<Rightarrow> s0)
         | None \<Rightarrow> s0)
      else if mode st = CLEANUP then fold (h_cleanupStep nr) (keysToRemove st) s0
      else s0)"

definition h_previewStep ::
  "studio \<Rightarrow> regexp option \<Rightarrow> h_resource \<Rightarrow> store \<times> (string, h_preview) js_map
     \<Rightarrow> store \<times> (string, h_preview) js_map"
where
  "h_previewStep st regex r s =
     (case s of (h, updates) \<Rightarrow>
        (case h_resourcePreview st regex r h of (h', chs) \<Rightarrow>
           if length chs > 0
           then (h', map_set updates (h_id r)
                       \<lparr>h_original = h_labels r, h_new = length h, h_changes = chs\<rparr>)
           else (h', updates)))"

definition h_previewData ::
  "regexp_ctor \<Rightarrow> studio \<Rightarrow> h_resource list \<Rightarrow> store \<Rightarrow> store \<times> (string, h_preview) js_map"
where
  "h_previewData new_RegExp st selectedResources h =
     fold (h_previewStep st (compileRegex new_RegExp st)) selectedResources (h, [])"

text \<open>Reading a resource and a preview entry out of a store.\<close>

definition read_resource :: "store \<Rightarrow> h_resource \<Rightarrow> resource" where
  "read_resource h r = \<lparr>res_id = h_id r, name = h_name r, labels = h ! h_labels r\<rparr>"

definition read_preview :: "store \<Rightarrow> h_preview \<Rightarrow> preview" where
  "read_preview h p = \<lparr>original = h ! h_original p, new = h ! h_new p, changes = h_changes p\<rparr>"

definition read_updates :: "store \<Rightarrow> (string, h_preview) js_map \<Rightarrow> (string, preview) js_map" where
  "read_updates h m = map (\<lambda>(i, p). (i, read_preview h p)) m"

section \<open>Notions used to state the properties\<close>

text \<open>The non-empty keys named by the rule list of the active mode, in list order.\<close>

definition ruleKeys :: "studio \<Rightarrow> string list" where
  "ruleKeys st = filter (\<lambda>k. k \<noteq> [])
     (case mode st of
        STATIC \<Rightarrow> map fst (staticLabels st)
      | PATTERN \<Rightarrow> map snd (mappings st)
      | REGEX \<Rightarrow> map snd (regexGroups st)
      | CLEANUP \<Rightarrow> keysToRemove st)"

text \<open>
  The call of \<^verbatim>\<open>processChange\<close> that a row leads to, if any, and the calls of one
  resource in their order.
\<close>

definition ruleStep :: "labels \<Rightarrow> (string \<times> string) option \<Rightarrow> acc \<Rightarrow> acc" where
  "ruleStep orig a s = (case a of Some (k, v) \<Rightarrow> processChange orig k v s | None \<Rightarrow> s)"

definition staticRule :: "static_label \<Rightarrow> (string \<times> string) option" where
  "staticRule row =
     (case row of (key, v) \<Rightarrow> if key \<noteq> [] \<and> v \<noteq> [] then Some (key, v) else None)"

definition patternRule :: "string list \<Rightarrow> mapping \<Rightarrow> (string \<times> string) option" where
  "patternRule parts row =
     (case row of (position, key) \<Rightarrow>
        (case at_index parts position of
           Some part \<Rightarrow> if key \<noteq> [] \<and> part \<noteq> [] then Some (key, part) else None
         | None \<Rightarrow> None))"

definition regexRule :: "match_array \<Rightarrow> regex_group \<Rightarrow> (string \<times> string) option" where
  "regexRule m row =
     (case row of (index, key) \<Rightarrow>
        (case at_index m index of
           Some (Some g) \<Rightarrow> if key \<noteq> [] \<and> g \<noteq> [] then Some (key, g) else None
         | _ \<Rightarrow> None))"

definition assignments :: "studio \<Rightarrow> regexp option \<Rightarrow> resource \<Rightarrow> (string \<times> string) list" where
  "assignments st regex r =
     (case mode st of
        STATIC \<Rightarrow> List.map_filter staticRule (staticLabels st)
      | PATTERN \<Rightarrow>
          List.map_filter (patternRule (js_split (name r) (delimiter st))) (mappings st)
      | REGEX \<Rightarrow>
          (case regex of
             Some rx \<Rightarrow>
               (case rx (name r) of
                  Some m \<Rightarrow> List.map_filter (regexRule m) (regexGroups st)
                | None \<Rightarrow> [])
           | None \<Rightarrow> [])
      | CLEANUP \<Rightarrow> [])"

text \<open>
  A row list with key projection \<open>kf\<close> whose rule \<open>f\<close> only ever assigns the row's
  own key, and only when that key is non-empty.
\<close>

definition keyed ::
  "('row \<Rightarrow> string) \<Rightarrow> ('row \<Rightarrow> (string \<times> string) option) \<Rightarrow> 'row list \<Rightarrow> bool"
where
  "keyed kf f rows =
     (\<forall>row \<in> set rows. \<forall>k v. f row = Some (k, v) \<longrightarrow> k = kf row \<and> k \<noteq> [])"

text \<open>The writes of a list of calls, one after the other.\<close>

definition assign_all :: "labels \<Rightarrow> (string \<times> string) list \<Rightarrow> labels" where
  "assign_all obj as = fold (\<lambda>a m. set_prop m (fst a) (snd a)) as obj"

text \<open>
  The members and the block of a group, the members in the order of the filtered
  list.
\<close>

definition groupMembers :: "string \<Rightarrow> resource list \<Rightarrow> js_value \<Rightarrow> resource list" where
  "groupMembers groupByLabel rs g = filter (\<lambda>r. groupValue groupByLabel r = g) rs"

definition groupBlock ::
  "string \<Rightarrow> resource list \<Rightarrow> js_value set \<Rightarrow> js_value \<Rightarrow> DisplayItem list"
where
  "groupBlock groupByLabel rs collapsedGroups g =
     Header g g (length (groupMembers groupByLabel rs g)) (g \<in> collapsedGroups)
       # (if g \<in> collapsedGroups then [] else map Resource (groupMembers groupByLabel rs g))"

section \<open>Concrete regular expressions\<close>

text \<open>
  Two expressions with the match function that JavaScript gives them. The first is
  the initial value of \<^verbatim>\<open>regexPattern\<close>, \<^verbatim>\<open>^([a-z]+)-([a-z]+)-(\d+)$\<close>: it matches
  exactly the names that fall into three parts at their dashes, two non-empty words
  of lower-case letters and a non-empty number. The second is \<^verbatim>\<open>^([a-z]*)-x$\<close>,
  whose group takes part in every match and may capture the empty string.
\<close>

definition lower_az :: "string \<Rightarrow> bool" where
  "lower_az s = list_all (\<lambda>c. CHR ''a'' \<le> c \<and> c \<le> CHR ''z'') s"

definition digits09 :: "string \<Rightarrow> bool" where
  "digits09 s = list_all (\<lambda>c. CHR ''0'' \<le> c \<and> c \<le> CHR ''9'') s"

definition default_pattern :: string where
  "default_pattern = ''^([a-z]+)-([a-z]+)-('' @ [CHR 0x5C] @ ''d+)$''"

definition default_regexp :: regexp where
  "default_regexp s =
     (case js_split s ''-'' of
        [a, b, c] \<Rightarrow>
          if a \<noteq> [] \<and> lower_az a \<and> b \<noteq> [] \<and> lower_az b \<and> c \<noteq> [] \<and> digits09 c
          then Some [Some s, Some a, Some b, Some c] else None
      | _ \<Rightarrow> None)"

definition star_pattern :: string where
  "star_pattern = ''^([a-z]*)-x$''"

definition star_regexp :: regexp where
  "star_regexp s =
     (let n = length s in
      if 2 \<le> n \<and> drop (n - 2) s = ''-x'' \<and> lower_az (take (n - 2) s)
      then Some [Some s, Some (take (n - 2) s)] else None)"

text \<open>
  An instance of the constructor for the concrete runs below. It agrees with
  JavaScript on the three expressions those runs use: the two above, and \<^verbatim>\<open>(\<close>,
  which does not parse. No run below uses another expression.
\<close>

definition sample_RegExp :: regexp_ctor where
  "sample_RegExp p =
     (if p = default_pattern then Inr default_regexp
      else if p = star_pattern then Inr star_regexp
      else Inl SyntaxError)"

text \<open>The state of the component when it is mounted: the initial values of its hooks.\<close>

definition initial_studio :: studio where
  "initial_studio =
     \<lparr>mode = STATIC, staticLabels = [('''', '''')], delimiter = ''-'',
      mappings = [(0, '''')], regexPattern = default_pattern,
      regexGroups = [(1, ''env''), (2, ''app'')], keysToRemove = ['''']\<rparr>"

text \<open>The test \<^verbatim>\<open>changes.length > 0\<close> and the entry stored for a resource that passes it.\<close>

definition changed :: "studio \<Rightarrow> regexp option \<Rightarrow> resource \<Rightarrow> bool" where
  "changed st regex r = (snd (resourcePreview st regex r) \<noteq> [])"

definition entry :: "studio \<Rightarrow> regexp option \<Rightarrow> resource \<Rightarrow> preview" where
  "entry st regex r =
     \<lparr>original = labels r, new = fst (resourcePreview st regex r),
      changes = snd (resourcePreview st regex r)\<rparr>"

text \<open>Two resources for the concrete runs.\<close>

definition vm_labelled :: resource where
  "vm_labelled = \<lparr>res_id = ''r1'', name = ''prod-web-42'', labels = [''env'' \<mapsto> ''prod'']\<rparr>"

definition vm_other :: resource where
  "vm_other = \<lparr>res_id = ''r2'', name = ''staging-payments-7'', labels = [''team'' \<mapsto> ''x'']\<rparr>"

definition vm_plain :: resource where
  "vm_plain = \<lparr>res_id = ''r3'', name = ''not-matching'', labels = Map.empty\<rparr>"

text \<open>
  Two validators for the concrete runs: one rejects the empty key and nothing else,
  one accepts every value.
\<close>

definition required_key :: validator where
  "required_key k = (if k = [] then Some ''Key is required'' else None)"

definition any_value :: validator where
  "any_value v = None"

definition vm_dev :: resource where
  "vm_dev = \<lparr>res_id = ''r4'', name = ''dev-api-1'', labels = [''env'' \<mapsto> ''dev'']\<rparr>"

text \<open>
  The store while one resource is processed: the input store followed by the copy
  \<^verbatim>\<open>newLabels\<close>. A preview map is well-formed in a store that holds all its
  references.
\<close>

definition lift :: "store \<Rightarrow> acc \<Rightarrow> h_acc" where
  "lift h s = (case s of (nl, chs) \<Rightarrow> (h @ [nl], chs))"

definition valid_refs :: "store \<Rightarrow> (string, h_preview) js_map \<Rightarrow> bool" where
  "valid_refs h m = (\<forall>(i, p) \<in> set m. h_original p < length h \<and> h_new p < length h)"

text \<open>Two resources whose label object is at a given place of the store.\<close>

definition hvm1 :: "ref \<Rightarrow> h_resource" where
  "hvm1 a = \<lparr>h_id = ''r1'', h_name = ''prod-web-42'', h_labels = a\<rparr>"

definition hvm2 :: "ref \<Rightarrow> h_resource" where
  "hvm2 a = \<lparr>h_id = ''r2'', h_name = ''prod-db-7'', h_labels = a\<rparr>"

text \<open>
  The text of an inherited member for the concrete runs, in the form that the
  language prescribes for built-in functions.
\<close>

definition native_text :: "string \<Rightarrow> string" where
  "native_text n = ''function '' @ n @ ''() { [native code] }''"

section \<open>The rule loops as lists of calls\<close>

lemma staticStep_rule: "staticStep orig = (\<lambda>row. ruleStep orig (staticRule row))"
  by (auto simp: staticStep_def ruleStep_def staticRule_def fun_eq_iff split: prod.splits)

lemma patternStep_rule:
  "patternStep orig parts = (\<lambda>row. ruleStep orig (patternRule parts row))"
  by (auto simp: patternStep_def ruleStep_def patternRule_def fun_eq_iff
      split: prod.splits option.splits)

lemma regexStep_rule: "regexStep orig m = (\<lambda>row. ruleStep orig (regexRule m row))"
  by (auto simp: regexStep_def ruleStep_def regexRule_def fun_eq_iff
      split: prod.splits option.splits)

lemma fst_processChange: "fst (processChange orig k v s) = set_prop (fst s) k v"
  by (cases s) (simp add: processChange_def)

lemma fold_ruleStep_fst:
  "fst (fold (\<lambda>row. ruleStep orig (f row)) rows s) = assign_all (fst s) (List.map_filter f rows)"
proof (induction rows arbitrary: s)
  case Nil
  then show ?case by (simp add: assign_all_def)
next
  case (Cons row rows)
  show ?case
  proof (cases "f row")
    case None
    then show ?thesis using Cons.IH[of s] by (simp add: ruleStep_def)
  next
    case (Some a)
    obtain k v where a: "a = (k, v)" by (cases a)
    have st: "ruleStep orig (f row) s = processChange orig k v s"
      using Some a by (simp add: ruleStep_def)
    have "fst (fold (\<lambda>row. ruleStep orig (f row)) (row # rows) s) =
            fst (fold (\<lambda>row. ruleStep orig (f row)) rows (processChange orig k v s))"
      by (simp add: st)
    also have "\<dots> = assign_all (set_prop (fst s) k v) (List.map_filter f rows)"
      by (simp only: Cons.IH fst_processChange)
    also have "\<dots> = assign_all (fst s) (List.map_filter f (row # rows))"
      using Some a by (simp add: assign_all_def)
    finally show ?thesis .
  qed
qed

lemma fold_ruleStep_skip:
  assumes "f row = None"
  shows "fold (\<lambda>row. ruleStep orig (f row)) (pre @ row # post) s =
           fold (\<lambda>row. ruleStep orig (f row)) (pre @ post) s"
  using assms by (simp add: ruleStep_def)

lemma resourcePreview_fst:
  assumes "mode st \<noteq> CLEANUP"
  shows "fst (resourcePreview st regex r) = assign_all (labels r) (assignments st regex r)"
proof (cases "mode st")
  case STATIC
  then show ?thesis
    by (simp add: resourcePreview_def assignments_def staticStep_rule fold_ruleStep_fst)
next
  case PATTERN
  then show ?thesis
    by (simp add: resourcePreview_def assignments_def patternStep_rule fold_ruleStep_fst Let_def)
next
  case REGEX
  then show ?thesis
    by (simp add: resourcePreview_def assignments_def regexStep_rule fold_ruleStep_fst
        assign_all_def split: option.splits)
next
  case CLEANUP
  with assms show ?thesis by simp
qed

section \<open>The writes of a list of calls\<close>

lemma assign_all_Cons:
  "assign_all obj ((k, v) # as) = assign_all (set_prop obj k v) as"
  by (simp add: assign_all_def)

lemma assign_all_lookup:
  "assign_all obj as k =
     (if k = ''__proto__'' \<and> obj k = None then None
      else case map_of (rev as) k of Some v \<Rightarrow> Some v | None \<Rightarrow> obj k)"
proof (induction as arbitrary: obj)
  case Nil
  then show ?case by (auto simp: assign_all_def)
next
  case (Cons a as)
  obtain k' v' where a: "a = (k', v')" by (cases a)
  have m: "map_of (rev (a # as)) k =
             (case map_of (rev as) k of Some v \<Rightarrow> Some v
              | None \<Rightarrow> if k = k' then Some v' else None)"
    by (simp add: a map_add_def split: option.splits)
  show ?case
    unfolding a assign_all_Cons Cons.IH m[unfolded a]
    by (cases "k = k'") (auto simp: set_prop_def split: option.splits)
qed

lemma map_of_rev_None: "k \<notin> fst ` set as \<Longrightarrow> map_of (rev as) k = None"
  by (simp add: map_of_eq_None_iff)

lemma assign_all_other: "k \<notin> fst ` set as \<Longrightarrow> assign_all obj as k = obj k"
  by (auto simp: assign_all_lookup map_of_rev_None)

lemma assign_all_dom: "dom obj \<subseteq> dom (assign_all obj as)"
  by (auto simp: assign_all_lookup split: option.splits)

section \<open>The keys of the calls\<close>

lemma keyed_subset: "keyed kf f rows \<Longrightarrow> set rows' \<subseteq> set rows \<Longrightarrow> keyed kf f rows'"
  unfolding keyed_def by blast

lemma map_filter_mem:
  "a \<in> set (List.map_filter f rows) \<longleftrightarrow> (\<exists>row \<in> set rows. f row = Some a)"
  by (induction rows) (auto split: option.splits)

lemma map_filter_keys_subset:
  assumes "keyed kf f rows"
  shows "fst ` set (List.map_filter f rows) \<subseteq> set (filter (\<lambda>k. k \<noteq> []) (map kf rows))"
proof
  fix k assume "k \<in> fst ` set (List.map_filter f rows)"
  then obtain v row where "row \<in> set rows" "f row = Some (k, v)"
    by (auto simp: map_filter_mem)
  then have "k = kf row \<and> k \<noteq> [] \<and> row \<in> set rows" using assms by (auto simp: keyed_def)
  then show "k \<in> set (filter (\<lambda>k. k \<noteq> []) (map kf rows))" by auto
qed

lemma keyed_static: "keyed fst staticRule rows"
  by (auto simp: keyed_def staticRule_def split: if_splits)

lemma keyed_pattern: "keyed snd (patternRule parts) rows"
  by (auto simp: keyed_def patternRule_def split: option.splits if_splits)

lemma keyed_regex: "keyed snd (regexRule m) rows"
  by (auto simp: keyed_def regexRule_def split: option.splits if_splits)

lemma assignments_keys: "fst ` set (assignments st regex r) \<subseteq> set (ruleKeys st)"
proof (cases "mode st")
  case STATIC
  then show ?thesis using map_filter_keys_subset[OF keyed_static]
    by (simp add: assignments_def ruleKeys_def)
next
  case PATTERN
  then show ?thesis using map_filter_keys_subset[OF keyed_pattern]
    by (simp add: assignments_def ruleKeys_def)
next
  case REGEX
  show ?thesis
  proof (cases regex)
    case None
    then show ?thesis using REGEX by (simp add: assignments_def)
  next
    case (Some rx)
    show ?thesis
    proof (cases "rx (name r)")
      case None
      then show ?thesis using REGEX Some by (simp add: assignments_def)
    next
      case (Some m)
      then show ?thesis
        using REGEX \<open>regex = Some rx\<close> map_filter_keys_subset[OF keyed_regex, of m "regexGroups st"]
        by (simp add: assignments_def ruleKeys_def)
    qed
  qed
next
  case CLEANUP
  then show ?thesis by (simp add: assignments_def)
qed

section \<open>What the rules leave alone\<close>

lemma preview_untargeted:
  assumes "mode st \<noteq> CLEANUP" and "k \<notin> set (ruleKeys st)"
  shows "fst (resourcePreview st regex r) k = labels r k"
proof -
  have "k \<notin> fst ` set (assignments st regex r)"
    using assms(2) assignments_keys[of st regex r] by blast
  then show ?thesis by (simp add: resourcePreview_fst[OF assms(1)] assign_all_other)
qed

lemma preview_keeps_keys:
  assumes "mode st \<noteq> CLEANUP"
  shows "dom (labels r) \<subseteq> dom (fst (resourcePreview st regex r))"
  by (simp add: resourcePreview_fst[OF assms] assign_all_dom)

section \<open>The map of updates\<close>

lemma map_of_map_set: "map_of (map_set m k v) = (map_of m)(k \<mapsto> v)"
  by (induction m) (auto simp: fun_eq_iff)

lemma keys_map_set: "set (map fst (map_set m k v)) = insert k (set (map fst m))"
proof (induction m)
  case Nil
  then show ?case by simp
next
  case (Cons a m)
  obtain k' v' where a: "a = (k', v')" by (cases a)
  show ?case
  proof (cases "k' = k")
    case True
    then show ?thesis unfolding a by simp
  next
    case False
    then show ?thesis using Cons unfolding a by (simp add: insert_commute)
  qed
qed

lemma distinct_map_set: "distinct (map fst m) \<Longrightarrow> distinct (map fst (map_set m k v))"
proof (induction m)
  case Nil
  then show ?case by simp
next
  case (Cons a m)
  obtain k' v' where a: "a = (k', v')" by (cases a)
  have "set (map fst (map_set m k v)) = insert k (set (map fst m))" by (rule keys_map_set)
  then show ?case using Cons unfolding a by auto
qed

lemma map_set_fresh: "k \<notin> set (map fst m) \<Longrightarrow> map_set m k v = m @ [(k, v)]"
  by (induction m) auto

lemma previewStep_eq:
  "previewStep st regex r updates =
     (if changed st regex r then map_set updates (res_id r) (entry st regex r) else updates)"
  by (simp add: previewStep_def changed_def entry_def split: prod.splits)

lemma fold_previewStep_keys:
  "set (map fst (fold (previewStep st regex) rs m)) =
     set (map fst m) \<union> res_id ` {r \<in> set rs. changed st regex r}"
proof (induction rs arbitrary: m)
  case Nil
  then show ?case by simp
next
  case (Cons r rs)
  have "set (map fst (fold (previewStep st regex) (r # rs) m)) =
          set (map fst (previewStep st regex r m)) \<union> res_id ` {r \<in> set rs. changed st regex r}"
    using Cons.IH[of "previewStep st regex r m"] by simp
  moreover have "set (map fst (previewStep st regex r m)) =
          set (map fst m) \<union> (if changed st regex r then {res_id r} else {})"
    unfolding previewStep_eq by (simp only: keys_map_set split: if_splits) auto
  moreover have "res_id ` {x \<in> set (r # rs). changed st regex x} =
          (if changed st regex r then {res_id r} else {}) \<union> res_id ` {r \<in> set rs. changed st regex r}"
    by auto
  ultimately show ?case by (simp only: Un_assoc)
qed

lemma fold_previewStep_distinct:
  "distinct (map fst m) \<Longrightarrow> distinct (map fst (fold (previewStep st regex) rs m))"
proof (induction rs arbitrary: m)
  case Nil
  then show ?case by simp
next
  case (Cons r rs)
  have "distinct (map fst (previewStep st regex r m))"
    unfolding previewStep_eq using Cons.prems by (simp add: distinct_map_set)
  then show ?case using Cons.IH by simp
qed

lemma fold_previewStep_other:
  "i \<notin> res_id ` set rs \<Longrightarrow> map_of (fold (previewStep st regex) rs m) i = map_of m i"
proof (induction rs arbitrary: m)
  case Nil
  then show ?case by simp
next
  case (Cons r rs)
  have "map_of (fold (previewStep st regex) rs (previewStep st regex r m)) i =
          map_of (previewStep st regex r m) i"
    using Cons by simp
  also have "\<dots> = map_of m i"
    unfolding previewStep_eq using Cons.prems by (simp add: map_of_map_set)
  finally show ?case by simp
qed

lemma fold_previewStep_lookup:
  "distinct (map res_id rs) \<Longrightarrow> r \<in> set rs \<Longrightarrow>
     map_of (fold (previewStep st regex) rs m) (res_id r) =
       (if changed st regex r then Some (entry st regex r) else map_of m (res_id r))"
proof (induction rs arbitrary: m)
  case Nil
  then show ?case by simp
next
  case (Cons a rs)
  show ?case
  proof (cases "r = a")
    case True
    then have "res_id r \<notin> res_id ` set rs" using Cons.prems(1) by simp
    then have "map_of (fold (previewStep st regex) rs (previewStep st regex a m)) (res_id r) =
                 map_of (previewStep st regex a m) (res_id r)"
      by (rule fold_previewStep_other)
    moreover have "map_of (previewStep st regex a m) (res_id a) =
                 (if changed st regex a then Some (entry st regex a) else map_of m (res_id a))"
      unfolding previewStep_eq by (simp add: map_of_map_set)
    ultimately show ?thesis using True by simp
  next
    case False
    then have r: "r \<in> set rs" and ne: "res_id a \<noteq> res_id r" using Cons.prems by auto
    have d: "distinct (map res_id rs)" using Cons.prems(1) by simp
    have "map_of (previewStep st regex a m) (res_id r) = map_of m (res_id r)"
      unfolding previewStep_eq using ne by (simp add: map_of_map_set)
    then show ?thesis using Cons.IH[OF d r, of "previewStep st regex a m"] by simp
  qed
qed

lemma fold_apply_distinct:
  "distinct (map fst pd) \<Longrightarrow> set (map fst pd) \<inter> set (map fst acc) = {} \<Longrightarrow>
     fold (\<lambda>(key, val) updates. map_set updates key (new val)) pd acc =
       acc @ map (\<lambda>(key, val). (key, new val)) pd"
proof (induction pd arbitrary: acc)
  case Nil
  then show ?case by simp
next
  case (Cons a pd)
  obtain k p where a: "a = (k, p)" by (cases a)
  have fresh: "k \<notin> set (map fst acc)" using Cons.prems(2) a by auto
  have d: "distinct (map fst pd)" using Cons.prems(1) by simp
  have dj: "set (map fst pd) \<inter> set (map fst (acc @ [(k, new p)])) = {}"
    using Cons.prems a by auto
  show ?case using Cons.IH[OF d dj] map_set_fresh[OF fresh] unfolding a by simp
qed

lemma handleApply_distinct:
  "distinct (map fst pd) \<Longrightarrow> handleApply pd = map (\<lambda>(key, val). (key, new val)) pd"
  using fold_apply_distinct[of pd "[]"] by (simp add: handleApply_def)

lemma previewData_distinct: "distinct (map fst (previewData new_RegExp st rs))"
  by (simp add: previewData_def fold_previewStep_distinct)

lemma handleApply_previewData:
  "handleApply (previewData new_RegExp st rs) =
     map (\<lambda>(key, val). (key, new val)) (previewData new_RegExp st rs)"
  by (rule handleApply_distinct[OF previewData_distinct])

lemma map_of_map_new:
  "map_of (map (\<lambda>(key, val). (key, new val)) pd) i = map_option new (map_of pd i)"
  by (induction pd) auto

lemma map_of_handleApply:
  "map_of (handleApply (previewData new_RegExp st rs)) i =
     map_option new (map_of (previewData new_RegExp st rs) i)"
  by (simp only: handleApply_previewData map_of_map_new)

section \<open>Lookup in the preview map and the payload\<close>

lemma previewData_lookup:
  assumes "distinct (map res_id rs)" and "r \<in> set rs"
  shows "map_get (previewData new_RegExp st rs) (res_id r) =
           (if changed st (compileRegex new_RegExp st) r
            then Some (entry st (compileRegex new_RegExp st) r) else None)"
  using fold_previewStep_lookup[OF assms, of st "compileRegex new_RegExp st" "[]"]
  by (simp add: previewData_def map_get_def)

lemma previewData_keys:
  "set (map_keys (previewData new_RegExp st rs)) =
     res_id ` {r \<in> set rs. changed st (compileRegex new_RegExp st) r}"
  using fold_previewStep_keys[of st "compileRegex new_RegExp st" rs "[]"]
  by (simp add: previewData_def map_keys_def)

lemma handleApply_keys:
  "map_keys (handleApply (previewData new_RegExp st rs)) = map_keys (previewData new_RegExp st rs)"
  by (simp add: handleApply_previewData map_keys_def split_def comp_def)

lemma handleApply_lookup:
  "map_get (handleApply (previewData new_RegExp st rs)) i =
     map_option new (map_get (previewData new_RegExp st rs) i)"
  by (simp add: map_get_def map_of_handleApply)

section \<open>Unfolding the concrete runs\<close>

lemmas eval_defs = previewData_def previewStep_def resourcePreview_def initial_studio_def
  staticStep_def patternStep_def regexStep_def cleanupStep_def processChange_def compileRegex_def
  vm_labelled_def vm_other_def map_get_def map_keys_def handleApply_def
  get_prop_def set_prop_def object_prototype_names_def

section \<open>The store during one resource\<close>

lemma h_processChange_lift:
  "lr < length h \<Longrightarrow>
     h_processChange lr (length h) k v (lift h s) = lift h (processChange (h ! lr) k v s)"
  by (cases s) (simp add: h_processChange_def processChange_def lift_def nth_append)

lemma h_staticStep_lift:
  "lr < length h \<Longrightarrow> h_staticStep lr (length h) row (lift h s) = lift h (staticStep (h ! lr) row s)"
  by (cases row) (simp add: h_staticStep_def staticStep_def h_processChange_lift)

lemma h_patternStep_lift:
  "lr < length h \<Longrightarrow>
     h_patternStep lr (length h) parts row (lift h s) = lift h (patternStep (h ! lr) parts row s)"
  by (cases row)
     (simp add: h_patternStep_def patternStep_def h_processChange_lift split: option.splits)

lemma h_regexStep_lift:
  "lr < length h \<Longrightarrow>
     h_regexStep lr (length h) m row (lift h s) = lift h (regexStep (h ! lr) m row s)"
  by (cases row)
     (simp add: h_regexStep_def regexStep_def h_processChange_lift split: option.splits)

lemma h_cleanupStep_lift:
  "h_cleanupStep (length h) k (lift h s) = lift h (cleanupStep k s)"
  by (cases s) (simp add: h_cleanupStep_def cleanupStep_def lift_def split: option.splits)

lemma fold_lift:
  assumes "\<And>row s. hstep row (lift h s) = lift h (step row s)"
  shows "fold hstep rows (lift h s) = lift h (fold step rows s)"
  by (induction rows arbitrary: s) (simp_all add: assms)

lemma h_resourcePreview_lift:
  assumes "h_labels r < length h"
  shows "h_resourcePreview st regex r h = lift h (resourcePreview st regex (read_resource h r))"
proof -
  let ?lr = "h_labels r"
  have s0: "(h @ [h ! ?lr], []) = lift h (h ! ?lr, [])" by (simp add: lift_def)
  have a: "fold (h_staticStep ?lr (length h)) rows (lift h s) =
             lift h (fold (staticStep (h ! ?lr)) rows s)" for rows s
    by (rule fold_lift) (rule h_staticStep_lift[OF assms])
  have b: "fold (h_patternStep ?lr (length h) parts) rows (lift h s) =
             lift h (fold (patternStep (h ! ?lr) parts) rows s)" for parts rows s
    by (rule fold_lift) (rule h_patternStep_lift[OF assms])
  have c: "fold (h_regexStep ?lr (length h) m) rows (lift h s) =
             lift h (fold (regexStep (h ! ?lr) m) rows s)" for m rows s
    by (rule fold_lift) (rule h_regexStep_lift[OF assms])
  have d: "fold (h_cleanupStep (length h)) rows (lift h s) =
             lift h (fold cleanupStep rows s)" for rows s
    by (rule fold_lift) (rule h_cleanupStep_lift)
  show ?thesis
    unfolding h_resourcePreview_def resourcePreview_def Let_def s0
    by (simp add: read_resource_def a b c d split: option.splits)
qed

section \<open>The store over the selection\<close>

lemma read_updates_map_set:
  "read_updates h (map_set m k p) = map_set (read_updates h m) k (read_preview h p)"
  by (induction m) (auto simp: read_updates_def)

lemma read_updates_extend:
  "valid_refs h m \<Longrightarrow> read_updates (h @ ext) m = read_updates h m"
  by (induction m) (auto simp: read_updates_def valid_refs_def read_preview_def nth_append)

lemma valid_refs_extend: "valid_refs h m \<Longrightarrow> valid_refs (h @ ext) m"
  by (auto simp: valid_refs_def)

lemma set_map_set: "set (map_set m k v) \<subseteq> insert (k, v) (set m)"
  by (induction m) (auto split: if_splits)

lemma valid_refs_map_set:
  "valid_refs h m \<Longrightarrow> h_original p < length h \<Longrightarrow> h_new p < length h \<Longrightarrow>
     valid_refs h (map_set m k p)"
  using set_map_set[of m k p] unfolding valid_refs_def by blast

lemma read_resource_extend:
  "h_labels r < length h \<Longrightarrow> read_resource (h @ ext) r = read_resource h r"
  by (simp add: read_resource_def nth_append)

lemma h_previewStep_sim:
  assumes lr: "h_labels r < length h" and v: "valid_refs (h @ ext) upd"
  shows "\<exists>nl. fst (h_previewStep st regex r (h @ ext, upd)) = h @ ext @ [nl]
             \<and> valid_refs (h @ ext @ [nl]) (snd (h_previewStep st regex r (h @ ext, upd)))
             \<and> read_updates (h @ ext @ [nl]) (snd (h_previewStep st regex r (h @ ext, upd)))
                 = previewStep st regex (read_resource h r) (read_updates (h @ ext) upd)"
proof -
  let ?H = "h @ ext"
  obtain nl chs where rp: "resourcePreview st regex (read_resource h r) = (nl, chs)"
    by (cases "resourcePreview st regex (read_resource h r)")
  have lr': "h_labels r < length ?H" using lr by simp
  have hp: "h_resourcePreview st regex r ?H = (?H @ [nl], chs)"
    using h_resourcePreview_lift[OF lr', of st regex] rp
    by (simp add: read_resource_extend[OF lr] lift_def)
  let ?p = "\<lparr>h_original = h_labels r, h_new = length ?H, h_changes = chs\<rparr>"
  have step: "h_previewStep st regex r (?H, upd) =
                (?H @ [nl], if length chs > 0 then map_set upd (h_id r) ?p else upd)"
    by (simp add: h_previewStep_def hp)
  have v': "valid_refs (?H @ [nl]) upd" using v by (rule valid_refs_extend)
  have rd: "read_updates (?H @ [nl]) upd = read_updates ?H upd"
    using v by (rule read_updates_extend)
  have rpv: "read_preview (?H @ [nl]) ?p = \<lparr>original = labels (read_resource h r), new = nl, changes = chs\<rparr>"
    using lr by (simp add: read_preview_def read_resource_def nth_append)
  have 1: "fst (h_previewStep st regex r (?H, upd)) = h @ ext @ [nl]" by (simp add: step)
  have 2: "valid_refs (h @ ext @ [nl]) (snd (h_previewStep st regex r (?H, upd)))"
    using v' lr by (auto simp: step intro!: valid_refs_map_set)
  have rid: "res_id (read_resource h r) = h_id r" by (simp add: read_resource_def)
  have ps: "previewStep st regex (read_resource h r) (read_updates ?H upd) =
              (if length chs > 0
               then map_set (read_updates ?H upd) (h_id r)
                      \<lparr>original = labels (read_resource h r), new = nl, changes = chs\<rparr>
               else read_updates ?H upd)"
    by (simp add: previewStep_def rp rid)
  have 3: "read_updates (h @ ext @ [nl]) (snd (h_previewStep st regex r (?H, upd)))
                 = previewStep st regex (read_resource h r) (read_updates ?H upd)"
    unfolding ps using rd rpv by (simp add: step read_updates_map_set)
  show ?thesis using 1 2 3 by blast
qed

lemma fold_h_previewStep_sim:
  assumes "\<forall>r \<in> set rs. h_labels r < length h" and "valid_refs (h @ ext) upd"
  shows "\<exists>ext'. length ext' = length rs
           \<and> fst (fold (h_previewStep st regex) rs (h @ ext, upd)) = h @ ext @ ext'
           \<and> read_updates (h @ ext @ ext') (snd (fold (h_previewStep st regex) rs (h @ ext, upd)))
               = fold (previewStep st regex) (map (read_resource h) rs) (read_updates (h @ ext) upd)"
  using assms
proof (induction rs arbitrary: ext upd)
  case Nil
  then show ?case by simp
next
  case (Cons r rs)
  have lr: "h_labels r < length h" and rest: "\<forall>r \<in> set rs. h_labels r < length h"
    using Cons.prems(1) by simp_all
  obtain H1 upd1 where s1: "h_previewStep st regex r (h @ ext, upd) = (H1, upd1)"
    by (cases "h_previewStep st regex r (h @ ext, upd)")
  from h_previewStep_sim[OF lr Cons.prems(2), of st regex] s1
  obtain nl where H1: "H1 = h @ ext @ [nl]" and v1: "valid_refs (h @ ext @ [nl]) upd1"
    and r1: "read_updates (h @ ext @ [nl]) upd1
               = previewStep st regex (read_resource h r) (read_updates (h @ ext) upd)"
    by auto
  have v1': "valid_refs (h @ (ext @ [nl])) upd1" using v1 by simp
  from Cons.IH[OF rest v1', of ] obtain ext' where
    l: "length ext' = length rs"
    and f: "fst (fold (h_previewStep st regex) rs (h @ (ext @ [nl]), upd1)) = h @ (ext @ [nl]) @ ext'"
    and rd: "read_updates (h @ (ext @ [nl]) @ ext')
               (snd (fold (h_previewStep st regex) rs (h @ (ext @ [nl]), upd1)))
             = fold (previewStep st regex) (map (read_resource h) rs)
                 (read_updates (h @ (ext @ [nl])) upd1)"
    by blast
  have "length (nl # ext') = length (r # rs)" using l by simp
  moreover have "fst (fold (h_previewStep st regex) (r # rs) (h @ ext, upd)) = h @ ext @ (nl # ext')"
    using f s1 H1 by simp
  moreover have "read_updates (h @ ext @ (nl # ext'))
                   (snd (fold (h_previewStep st regex) (r # rs) (h @ ext, upd)))
               = fold (previewStep st regex) (map (read_resource h) (r # rs))
                   (read_updates (h @ ext) upd)"
    using rd r1 s1 H1 by simp
  ultimately show ?case by blast
qed

lemma h_previewData_sim:
  assumes "\<forall>r \<in> set rs. h_labels r < length h"
  shows "\<exists>ext. length ext = length rs
           \<and> fst (h_previewData new_RegExp st rs h) = h @ ext
           \<and> read_updates (h @ ext) (snd (h_previewData new_RegExp st rs h))
               = previewData new_RegExp st (map (read_resource h) rs)"
  using fold_h_previewStep_sim[OF assms, of "[]" "[]" st "compileRegex new_RegExp st"]
  by (simp add: h_previewData_def previewData_def valid_refs_def read_updates_def)

section \<open>One row of a rule list\<close>

lemma map_filter_append:
  "List.map_filter f (xs @ ys) = List.map_filter f xs @ List.map_filter f ys"
  by (simp add: List.map_filter_def)

lemma last_call_wins:
  assumes fr: "f row = Some (k, t)"
    and later: "\<forall>row' \<in> set post. \<forall>v. f row' \<noteq> Some (k, v)"
    and np: "k \<noteq> ''__proto__''"
  shows "assign_all obj (List.map_filter f (pre @ row # post)) k = Some t"
proof -
  have "k \<notin> fst ` set (List.map_filter f post)"
    using later by (auto simp: map_filter_mem)
  then have n: "map_of (rev (List.map_filter f post)) k = None" by (rule map_of_rev_None)
  have "List.map_filter f (pre @ row # post) =
          List.map_filter f pre @ (k, t) # List.map_filter f post"
    using fr by (simp add: map_filter_append)
  then show ?thesis using n np by (simp add: assign_all_lookup map_add_def)
qed

lemma patternRule_Some:
  "k \<noteq> [] \<Longrightarrow> at_index parts p = Some t \<Longrightarrow> t \<noteq> [] \<Longrightarrow> patternRule parts (p, k) = Some (k, t)"
  by (simp add: patternRule_def)

lemma patternRule_None:
  "at_index parts p = None \<or> at_index parts p = Some [] \<Longrightarrow> patternRule parts (p, k) = None"
  by (auto simp: patternRule_def)

lemma regexRule_Some:
  "k \<noteq> [] \<Longrightarrow> at_index m i = Some (Some t) \<Longrightarrow> t \<noteq> [] \<Longrightarrow> regexRule m (i, k) = Some (k, t)"
  by (simp add: regexRule_def)

lemma regexRule_None:
  "at_index m i = None \<or> at_index m i = Some None \<or> at_index m i = Some (Some [])
     \<Longrightarrow> regexRule m (i, k) = None"
  by (auto simp: regexRule_def)

lemma resourcePreview_pattern:
  "mode st = PATTERN \<Longrightarrow>
     resourcePreview st regex r =
       fold (\<lambda>row. ruleStep (labels r) (patternRule (js_split (name r) (delimiter st)) row))
         (mappings st) (labels r, [])"
  by (simp add: resourcePreview_def patternStep_rule)

lemma resourcePreview_regex:
  "mode st = REGEX \<Longrightarrow> rx (name r) = Some m \<Longrightarrow>
     resourcePreview st (Some rx) r =
       fold (\<lambda>row. ruleStep (labels r) (regexRule m row)) (regexGroups st) (labels r, [])"
  by (simp add: resourcePreview_def regexStep_rule)

section \<open>The concrete expressions at the names of the runs\<close>

lemma split_prod: "js_split ''prod-web-42'' ''-'' = [''prod'', ''web'', ''42'']"
  by (simp add: js_split_def)

lemma split_staging: "js_split ''staging-payments-7'' ''-'' = [''staging'', ''payments'', ''7'']"
  by (simp add: js_split_def)

lemma default_regexp_staging:
  "default_regexp ''staging-payments-7'' =
     Some [Some ''staging-payments-7'', Some ''staging'', Some ''payments'', Some ''7'']"
  by (simp add: default_regexp_def split_staging lower_az_def digits09_def less_eq_char_def)

lemma default_regexp_not_matching: "default_regexp ''not-matching'' = None"
  by (simp add: default_regexp_def js_split_def)

lemma star_regexp_empty: "star_regexp ''-x'' = Some [Some ''-x'', Some '''']"
  by (simp add: star_regexp_def lower_az_def)

lemma sample_RegExp_default: "sample_RegExp default_pattern = Inr default_regexp"
  by (simp add: sample_RegExp_def)

lemma sample_RegExp_star: "sample_RegExp star_pattern = Inr star_regexp"
  by (simp add: sample_RegExp_def star_pattern_def default_pattern_def)

section \<open>The errors of the static rows\<close>

lemma truthy_None: "\<not> truthy None"
  by (simp add: truthy_def)

lemma hasErrors_iff:
  "list_ex (\<lambda>(ek, ev). truthy ek \<or> truthy ev) (staticLabelErrors validateKey validateValue rows) =
     (\<exists>(key, v) \<in> set rows.
         (key \<noteq> [] \<or> v \<noteq> []) \<and> (truthy (validateKey key) \<or> truthy (validateValue v)))"
proof (induction rows)
  case Nil
  then show ?case by (simp add: staticLabelErrors_def)
next
  case (Cons row rows)
  obtain key v where row: "row = (key, v)" by (cases row)
  have "staticLabelErrors validateKey validateValue (row # rows) =
          (if key = [] \<and> v = [] then (None, None) else (validateKey key, validateValue v))
            # staticLabelErrors validateKey validateValue rows"
    by (simp add: staticLabelErrors_def row)
  then show ?case using Cons.IH by (auto simp: row truthy_None)
qed

section \<open>The groups of the table\<close>

lemma map_set_twice: "map_set (map_set m k v) k v' = map_set m k v'"
  by (induction m) auto

lemma groupStep_eq:
  "groupStep g r groups =
     map_set groups (groupValue g r)
       ((case map_of groups (groupValue g r) of Some ms \<Rightarrow> ms | None \<Rightarrow> []) @ [r])"
  by (simp add: groupStep_def Let_def map_get_def map_of_map_set map_set_twice
      split: option.splits)

lemma fold_groupStep_distinct:
  "distinct (map fst m) \<Longrightarrow> distinct (map fst (fold (groupStep g) rs m))"
proof (induction rs arbitrary: m)
  case Nil
  then show ?case by simp
next
  case (Cons r rs)
  have "distinct (map fst (groupStep g r m))"
    unfolding groupStep_eq using Cons.prems by (rule distinct_map_set)
  then show ?case using Cons.IH by simp
qed

lemma fold_groupStep_keys:
  "set (map fst (fold (groupStep g) rs m)) = set (map fst m) \<union> groupValue g ` set rs"
proof (induction rs arbitrary: m)
  case Nil
  then show ?case by simp
next
  case (Cons r rs)
  have "set (map fst (groupStep g r m)) = insert (groupValue g r) (set (map fst m))"
    unfolding groupStep_eq by (rule keys_map_set)
  then show ?case using Cons.IH[of "groupStep g r m"] by auto
qed

lemma fold_groupStep_lookup:
  "map_of (fold (groupStep g) rs m) k =
     (case map_of m k of
        Some ms \<Rightarrow> Some (ms @ groupMembers g rs k)
      | None \<Rightarrow> if k \<in> groupValue g ` set rs then Some (groupMembers g rs k) else None)"
proof (induction rs arbitrary: m)
  case Nil
  then show ?case by (simp add: groupMembers_def split: option.splits)
next
  case (Cons r rs)
  have step: "map_of (groupStep g r m) =
      (map_of m)(groupValue g r \<mapsto> (case map_of m (groupValue g r) of Some ms \<Rightarrow> ms | None \<Rightarrow> []) @ [r])"
    unfolding groupStep_eq by (rule map_of_map_set)
  have "map_of (fold (groupStep g) (r # rs) m) k =
          (case map_of (groupStep g r m) k of
             Some ms \<Rightarrow> Some (ms @ groupMembers g rs k)
           | None \<Rightarrow> if k \<in> groupValue g ` set rs then Some (groupMembers g rs k) else None)"
    using Cons.IH[of "groupStep g r m"] by simp
  then show ?case
    by (auto simp: step groupMembers_def split: option.splits)
qed

lemma fold_flattenStep:
  "fold (flattenStep groups cg) keys items =
     items @ concat (map (\<lambda>key. case map_of groups key of
                             Some grp \<Rightarrow> Header key key (length grp) (key \<in> cg)
                                          # (if key \<in> cg then [] else map Resource grp)
                           | None \<Rightarrow> []) keys)"
proof (induction keys arbitrary: items)
  case Nil
  then show ?case by simp
next
  case (Cons key keys)
  have "flattenStep groups cg key items =
          items @ (case map_of groups key of
                     Some grp \<Rightarrow> Header key key (length grp) (key \<in> cg)
                                  # (if key \<in> cg then [] else map Resource grp)
                   | None \<Rightarrow> [])"
    by (simp add: flattenStep_def map_get_def Let_def split: option.splits)
  then show ?case using Cons.IH[of "flattenStep groups cg key items"] by simp
qed

section \<open>Pages\<close>

lemma paginated_eq:
  assumes "0 < p" and "1 \<le> c"
  shows "paginatedDisplayItems items c p = take p (drop (nat (c - 1) * p) items)"
proof -
  let ?s = "(c - 1) * int p"
  have s0: "0 \<le> ?s" using assms by simp
  have ns: "nat ?s = nat (c - 1) * p" using assms by (simp add: nat_mult_distrib)
  show ?thesis
  proof (cases "?s < int (length items)")
    case True
    then have "nat (min (?s + int p) (int (length items)) - ?s) = min p (length items - nat ?s)"
      using s0 by (auto simp: min_def)
    then show ?thesis using True s0 ns
      by (simp add: paginatedDisplayItems_def js_slice_def Let_def min_def)
  next
    case False
    then have "length items \<le> nat ?s" using s0 by linarith
    then show ?thesis using False s0 ns
      by (simp add: paginatedDisplayItems_def js_slice_def Let_def min_def)
  qed
qed

lemma totalPages_bounds:
  assumes "0 < p"
  shows "n \<le> totalPages n p * p" and "totalPages n p * p < n + p"
proof -
  have d: "(n + p - 1) = (n + p - 1) div p * p + (n + p - 1) mod p" by simp
  have m: "(n + p - 1) mod p < p" using assms by simp
  show "n \<le> totalPages n p * p" unfolding totalPages_def using d m assms by linarith
  show "totalPages n p * p < n + p" unfolding totalPages_def using d assms by linarith
qed

lemma totalPages_zero:
  assumes "0 < p"
  shows "(totalPages n p = 0) = (n = 0)"
proof
  assume "totalPages n p = 0"
  then show "n = 0" using totalPages_bounds(1)[OF assms, of n] by simp
next
  assume "n = 0"
  then show "totalPages n p = 0" using assms by (simp add: totalPages_def)
qed

lemma paginated_beyond:
  assumes "0 < p" and "int pages < c" and "length items \<le> pages * p"
  shows "paginatedDisplayItems items c p = []"
proof -
  have c1: "1 \<le> c" using assms(2) by linarith
  have "pages \<le> nat (c - 1)" using assms(2) by linarith
  then have "pages * p \<le> nat (c - 1) * p" by (rule mult_le_mono1)
  then have "length items \<le> nat (c - 1) * p" using assms(3) by linarith
  then show ?thesis by (simp add: paginated_eq[OF assms(1) c1])
qed

lemma paginated_first: "0 < p \<Longrightarrow> paginatedDisplayItems items 1 p = take p items"
  using paginated_eq[of p 1 items] by simp

section \<open>The display sequence\<close>

lemma displayItems_blocks:
  assumes "g \<noteq> []"
  shows "displayItems toText rs g cg =
           concat (map (groupBlock g rs cg)
             (sort_key (js_text toText) (map_keys (fold (groupStep g) rs []))))"
proof -
  let ?G = "fold (groupStep g) rs []"
  let ?keys = "sort_key (js_text toText) (map_keys ?G)"
  have ks: "set ?keys = groupValue g ` set rs"
    using fold_groupStep_keys[of g rs "[]"] by (simp add: map_keys_def)
  have look: "map_of ?G k = Some (groupMembers g rs k)" if "k \<in> set ?keys" for k
    using that fold_groupStep_lookup[of g rs "[]" k] unfolding ks by simp
  have "displayItems toText rs g cg =
          concat (map (\<lambda>key. case map_of ?G key of
                             Some grp \<Rightarrow> Header key key (length grp) (key \<in> cg)
                                          # (if key \<in> cg then [] else map Resource grp)
                           | None \<Rightarrow> []) ?keys)"
    using assms by (simp add: displayItems_def Let_def fold_flattenStep)
  also have "\<dots> = concat (map (groupBlock g rs cg) ?keys)"
    by (rule arg_cong[where f = concat], rule map_cong[OF refl]) (simp add: look groupBlock_def)
  finally show ?thesis .
qed

lemma group_keys_sorted:
  "distinct (sort_key (js_text toText) (map_keys (fold (groupStep g) rs [])))"
  "set (sort_key (js_text toText) (map_keys (fold (groupStep g) rs []))) = groupValue g ` set rs"
  "sorted (map (js_text toText) (sort_key (js_text toText) (map_keys (fold (groupStep g) rs []))))"
proof -
  have d: "distinct (map fst (fold (groupStep g) rs []))"
    by (rule fold_groupStep_distinct) simp
  show "distinct (sort_key (js_text toText) (map_keys (fold (groupStep g) rs [])))"
    using d by (simp add: map_keys_def)
  show "set (sort_key (js_text toText) (map_keys (fold (groupStep g) rs []))) = groupValue g ` set rs"
    using fold_groupStep_keys[of g rs "[]"] by (simp add: map_keys_def)
  show "sorted (map (js_text toText) (sort_key (js_text toText) (map_keys (fold (groupStep g) rs []))))"
    by (rule sorted_sort_key)
qed

section \<open>A grouped table\<close>

lemma gv:
  "groupValue ''env'' vm_labelled = Str ''prod''" "groupValue ''env'' vm_other = Str ''Unassigned''"
  "groupValue ''env'' vm_plain = Str ''Unassigned''" "groupValue ''env'' vm_dev = Str ''dev''"
  by (simp_all add: groupValue_def get_prop_def object_prototype_names_def
      vm_labelled_def vm_other_def vm_plain_def vm_dev_def)

lemma display_example_collapsed:
  "displayItems native_text [vm_labelled, vm_other, vm_plain, vm_dev] ''env'' {Str ''Unassigned''} =
     [Header (Str ''Unassigned'') (Str ''Unassigned'') 2 True,
      Header (Str ''dev'') (Str ''dev'') 1 False, Resource vm_dev,
      Header (Str ''prod'') (Str ''prod'') 1 False, Resource vm_labelled]"
  by (simp add: displayItems_def groupStep_def gv map_get_def map_keys_def js_text_def
      less_eq_char_def less_char_def flattenStep_def)

lemma display_example_expanded:
  "displayItems native_text [vm_labelled, vm_other, vm_plain, vm_dev] ''env'' {} =
     [Header (Str ''Unassigned'') (Str ''Unassigned'') 2 False, Resource vm_other, Resource vm_plain,
      Header (Str ''dev'') (Str ''dev'') 1 False, Resource vm_dev,
      Header (Str ''prod'') (Str ''prod'') 1 False, Resource vm_labelled]"
  by (simp add: displayItems_def groupStep_def gv map_get_def map_keys_def js_text_def
      less_eq_char_def less_char_def flattenStep_def)

section \<open>The change set of a resource\<close>

text \<open>
  C1. The claim is that the change list holds exactly one \<open>ADD\<close> for each key that the
  candidate map has and the original map lacks, exactly one \<open>UPDATE\<close> for each key
  present in both with different values, and no record for a key whose value is
  unchanged. The code departs from it at three runs of the Static strategy.
  \<^verbatim>\<open>processChange\<close> compares every row with the labels of the resource and never with
  \<^verbatim>\<open>newLabels\<close>: two rows \<open>a = 1\<close>, \<open>a = 2\<close> on a resource without \<open>a\<close> give two \<open>ADD\<close>
  records for \<open>a\<close>, and the rows \<open>a = 2\<close>, \<open>a = 1\<close> on the labels \<open>{a: 1}\<close> give an
  \<open>UPDATE\<close> of \<open>a\<close> although the candidate map equals the original. The read
  \<^verbatim>\<open>r.labels[key]\<close> finds inherited members: the row \<open>constructor = x\<close> on a resource
  without labels gives an \<open>UPDATE\<close> whose old value is the inherited function, where
  the key is new.
\<close>

theorem change_set_defects:
  "resourcePreview (initial_studio\<lparr>staticLabels := [(''a'', ''1''), (''a'', ''2'')]\<rparr>) None
      \<lparr>res_id = ''r1'', name = ''vm'', labels = Map.empty\<rparr>
     = ([''a'' \<mapsto> ''2''], [ADD ''a'' ''1'', ADD ''a'' ''2''])
   \<and> resourcePreview (initial_studio\<lparr>staticLabels := [(''a'', ''2''), (''a'', ''1'')]\<rparr>) None
      \<lparr>res_id = ''r1'', name = ''vm'', labels = [''a'' \<mapsto> ''1'']\<rparr>
     = ([''a'' \<mapsto> ''1''], [UPDATE ''a'' (Str ''1'') ''2''])
   \<and> resourcePreview (initial_studio\<lparr>staticLabels := [(''constructor'', ''x'')]\<rparr>) None
      \<lparr>res_id = ''r1'', name = ''vm'', labels = Map.empty\<rparr>
     = ([''constructor'' \<mapsto> ''x''], [UPDATE ''constructor'' (Proto ''constructor'') ''x''])"
  by (simp add: eval_defs)

section \<open>The apply set\<close>

text \<open>
  C2. The claim is that the apply payload maps each included resource to its
  complete new label map, the original labels with every rule outcome merged in.
  The code departs from it for a rule with the key \<^verbatim>\<open>__proto__\<close>: in Pattern mode
  with the mapping \<open>(0, __proto__)\<close> the resource \<open>prod-web-42\<close> gets a change record and
  enters the payload, but the write \<^verbatim>\<open>newLabels[key] = value\<close> stores nothing, and
  the payload maps the resource to its original labels, without the rule outcome.
\<close>

theorem payload_without_rule_outcome:
  "previewData sample_RegExp (initial_studio\<lparr>mode := PATTERN, mappings := [(0, ''__proto__'')]\<rparr>)
      [vm_labelled]
     = [(''r1'', \<lparr>original = [''env'' \<mapsto> ''prod''], new = [''env'' \<mapsto> ''prod''],
                 changes = [UPDATE ''__proto__'' (Proto ''__proto__'') ''prod'']\<rparr>)]
   \<and> handleApply (previewData sample_RegExp
        (initial_studio\<lparr>mode := PATTERN, mappings := [(0, ''__proto__'')]\<rparr>) [vm_labelled])
     = [(''r1'', [''env'' \<mapsto> ''prod''])]"
proof -
  have s: "js_split ''prod-web-42'' ''-'' = [''prod'', ''web'', ''42'']"
    by (simp add: js_split_def)
  show ?thesis by (simp add: eval_defs s at_index_def)
qed

section \<open>An expression that does not parse\<close>

text \<open>
  C3. In Regex mode, when the constructor throws on the expression, the variable
  \<open>regex\<close> stays \<open>null\<close>, every selected resource keeps its labels with an empty
  change list, and the preview map and the apply payload are empty. The exception is
  the value \<open>Inl e\<close> of the constructor and is consumed there: the preview computation
  returns its map.
\<close>

theorem invalid_regex_disables_strategy:
  assumes "mode st = REGEX" and "new_RegExp (regexPattern st) = Inl e"
  shows "compileRegex new_RegExp st = None
       \<and> (\<forall>r. resourcePreview st (compileRegex new_RegExp st) r = (labels r, []))
       \<and> previewData new_RegExp st rs = []
       \<and> handleApply (previewData new_RegExp st rs) = []"
proof -
  have c: "compileRegex new_RegExp st = None" using assms by (simp add: compileRegex_def)
  have r: "resourcePreview st None r = (labels r, [])" for r
    using assms(1) by (simp add: resourcePreview_def)
  have s: "previewStep st None r m = m" for r m
    by (simp add: previewStep_def r)
  have p: "fold (previewStep st None) rs m = m" for m
    by (induction rs) (simp_all add: s)
  have "previewData new_RegExp st rs = []" by (simp add: previewData_def c p)
  then show ?thesis using c r by (simp add: handleApply_def)
qed

text \<open>The expression \<^verbatim>\<open>(\<close> on two resources.\<close>

theorem invalid_regex_disables_strategy_witness:
  "mode (initial_studio\<lparr>mode := REGEX, regexPattern := ''(''\<rparr>) = REGEX
   \<and> sample_RegExp (regexPattern (initial_studio\<lparr>mode := REGEX, regexPattern := ''(''\<rparr>))
       = Inl SyntaxError
   \<and> previewData sample_RegExp (initial_studio\<lparr>mode := REGEX, regexPattern := ''(''\<rparr>)
       [vm_labelled, vm_other] = []"
proof -
  let ?st = "initial_studio\<lparr>mode := REGEX, regexPattern := ''(''\<rparr>"
  have m: "mode ?st = REGEX" by (simp add: initial_studio_def)
  have e: "sample_RegExp (regexPattern ?st) = Inl SyntaxError"
    by (simp add: initial_studio_def sample_RegExp_def default_pattern_def star_pattern_def)
  show ?thesis
    using invalid_regex_disables_strategy[where new_RegExp = sample_RegExp and st = ?st
        and e = SyntaxError and rs = "[vm_labelled, vm_other]", OF m e] m e
    by simp
qed

section \<open>The Regex strategy\<close>

text \<open>
  C4, amended. With an expression that parses, a resource whose name does not match
  keeps its labels and has no change. On a match, a mapping with a non-empty key
  other than \<^verbatim>\<open>__proto__\<close> whose group index holds a non-empty captured text sets that
  key to the text, unless a later mapping for the same key holds a non-empty text
  too, which then overwrites it. A mapping whose group index is out of range, or
  whose group did not take part or captured the empty string, is passed over. The
  initial expression and groups on the name \<open>staging-payments-7\<close> give \<open>env = staging\<close>
  and \<open>app = payments\<close>, and no entry for the name \<open>not-matching\<close>.
\<close>

theorem regex_sets_groups:
  assumes "mode st = REGEX" and "new_RegExp (regexPattern st) = Inr rx"
  shows "compileRegex new_RegExp st = Some rx
       \<and> (rx (name r) = None \<longrightarrow> resourcePreview st (Some rx) r = (labels r, []))
       \<and> (\<forall>m pre i k post t.
            rx (name r) = Some m \<and> regexGroups st = pre @ (i, k) # post
            \<and> k \<noteq> [] \<and> k \<noteq> ''__proto__''
            \<and> at_index m i = Some (Some t) \<and> t \<noteq> []
            \<and> (\<forall>i'. (i', k) \<in> set post \<longrightarrow>
                  at_index m i' = None \<or> at_index m i' = Some None
                  \<or> at_index m i' = Some (Some []))
          \<longrightarrow> fst (resourcePreview st (Some rx) r) k = Some t)
       \<and> (\<forall>m pre i k post.
            rx (name r) = Some m \<and> regexGroups st = pre @ (i, k) # post
            \<and> (at_index m i = None \<or> at_index m i = Some None \<or> at_index m i = Some (Some []))
          \<longrightarrow> resourcePreview st (Some rx) r
                = resourcePreview (st\<lparr>regexGroups := pre @ post\<rparr>) (Some rx) r)
       \<and> previewData sample_RegExp (initial_studio\<lparr>mode := REGEX\<rparr>)
            [\<lparr>res_id = ''r1'', name = ''staging-payments-7'', labels = Map.empty\<rparr>]
          = [(''r1'', \<lparr>original = Map.empty,
                       new = [''env'' \<mapsto> ''staging'', ''app'' \<mapsto> ''payments''],
                       changes = [ADD ''env'' ''staging'', ADD ''app'' ''payments'']\<rparr>)]
       \<and> previewData sample_RegExp (initial_studio\<lparr>mode := REGEX\<rparr>)
            [\<lparr>res_id = ''r2'', name = ''not-matching'', labels = l\<rparr>] = []"
proof -
  have 0: "compileRegex new_RegExp st = Some rx" using assms by (simp add: compileRegex_def)
  have 1: "rx (name r) = None \<longrightarrow> resourcePreview st (Some rx) r = (labels r, [])"
    using assms(1) by (simp add: resourcePreview_def)
  have 2: "\<forall>m pre i k post t.
            rx (name r) = Some m \<and> regexGroups st = pre @ (i, k) # post
            \<and> k \<noteq> [] \<and> k \<noteq> ''__proto__''
            \<and> at_index m i = Some (Some t) \<and> t \<noteq> []
            \<and> (\<forall>i'. (i', k) \<in> set post \<longrightarrow>
                  at_index m i' = None \<or> at_index m i' = Some None
                  \<or> at_index m i' = Some (Some []))
          \<longrightarrow> fst (resourcePreview st (Some rx) r) k = Some t"
  proof (intro allI impI)
    fix m pre i k post t
    assume h: "rx (name r) = Some m \<and> regexGroups st = pre @ (i, k) # post
            \<and> k \<noteq> [] \<and> k \<noteq> ''__proto__''
            \<and> at_index m i = Some (Some t) \<and> t \<noteq> []
            \<and> (\<forall>i'. (i', k) \<in> set post \<longrightarrow>
                  at_index m i' = None \<or> at_index m i' = Some None
                  \<or> at_index m i' = Some (Some []))"
    have rxm: "rx (name r) = Some m" using h by simp
    have fr: "regexRule m (i, k) = Some (k, t)" using h by (intro regexRule_Some) auto
    have later: "\<forall>row' \<in> set post. \<forall>v. regexRule m row' \<noteq> Some (k, v)"
    proof (intro ballI allI notI)
      fix row' v assume r': "row' \<in> set post" and e: "regexRule m row' = Some (k, v)"
      obtain i' k' where row': "row' = (i', k')" by (cases row')
      have "k' = k" using e keyed_regex[of m "[row']"] by (auto simp: keyed_def row')
      then have "regexRule m (i', k) = None"
        using h r' row' by (intro regexRule_None) auto
      then show False using e row' \<open>k' = k\<close> by simp
    qed
    have "assign_all (labels r) (List.map_filter (regexRule m) (pre @ (i, k) # post)) k = Some t"
      using fr later h by (intro last_call_wins) auto
    moreover have "fst (resourcePreview st (Some rx) r) =
            assign_all (labels r) (List.map_filter (regexRule m) (regexGroups st))"
      by (simp only: resourcePreview_regex[where rx = rx and r = r and m = m, OF assms(1) rxm]
          fold_ruleStep_fst fst_conv)
    moreover have "regexGroups st = pre @ (i, k) # post" using h by simp
    ultimately show "fst (resourcePreview st (Some rx) r) k = Some t" by simp
  qed
  have 3: "\<forall>m pre i k post.
            rx (name r) = Some m \<and> regexGroups st = pre @ (i, k) # post
            \<and> (at_index m i = None \<or> at_index m i = Some None \<or> at_index m i = Some (Some []))
          \<longrightarrow> resourcePreview st (Some rx) r
                = resourcePreview (st\<lparr>regexGroups := pre @ post\<rparr>) (Some rx) r"
  proof (intro allI impI)
    fix m pre i k post
    assume h: "rx (name r) = Some m \<and> regexGroups st = pre @ (i, k) # post
            \<and> (at_index m i = None \<or> at_index m i = Some None \<or> at_index m i = Some (Some []))"
    then have "regexRule m (i, k) = None" by (intro regexRule_None) simp
    then have "fold (\<lambda>row. ruleStep (labels r) (regexRule m row)) (pre @ (i, k) # post)
                 (labels r, [])
               = fold (\<lambda>row. ruleStep (labels r) (regexRule m row)) (pre @ post) (labels r, [])"
      by (rule fold_ruleStep_skip)
    then show "resourcePreview st (Some rx) r
                = resourcePreview (st\<lparr>regexGroups := pre @ post\<rparr>) (Some rx) r"
      using h assms(1) by (simp add: resourcePreview_regex)
  qed
  have c: "compileRegex sample_RegExp (initial_studio\<lparr>mode := REGEX\<rparr>) = Some default_regexp"
    by (simp add: compileRegex_def initial_studio_def sample_RegExp_default)
  have 4: "previewData sample_RegExp (initial_studio\<lparr>mode := REGEX\<rparr>)
            [\<lparr>res_id = ''r1'', name = ''staging-payments-7'', labels = Map.empty\<rparr>]
          = [(''r1'', \<lparr>original = Map.empty,
                       new = [''env'' \<mapsto> ''staging'', ''app'' \<mapsto> ''payments''],
                       changes = [ADD ''env'' ''staging'', ADD ''app'' ''payments'']\<rparr>)]"
    unfolding previewData_def c
    by (simp add: previewStep_def resourcePreview_def default_regexp_staging
        regexStep_def at_index_def processChange_def initial_studio_def
        get_prop_def set_prop_def object_prototype_names_def)
  have 5: "previewData sample_RegExp (initial_studio\<lparr>mode := REGEX\<rparr>)
            [\<lparr>res_id = ''r2'', name = ''not-matching'', labels = l\<rparr>] = []"
    unfolding previewData_def c
    by (simp add: previewStep_def resourcePreview_def default_regexp_not_matching
        initial_studio_def)
  show ?thesis using 0 1 2 3 4 5 by blast
qed

text \<open>
  The initial expression with the groups \<open>(1, env)\<close>, \<open>(4, env)\<close>, \<open>(2, app)\<close> on a name
  that matches and on one that does not.
\<close>

theorem regex_sets_groups_witness:
  "mode (initial_studio\<lparr>mode := REGEX, regexGroups := [(1, ''env''), (4, ''env''), (2, ''app'')]\<rparr>)
     = REGEX
   \<and> sample_RegExp (regexPattern
        (initial_studio\<lparr>mode := REGEX, regexGroups := [(1, ''env''), (4, ''env''), (2, ''app'')]\<rparr>))
      = Inr default_regexp
   \<and> default_regexp (name vm_other) =
        Some [Some ''staging-payments-7'', Some ''staging'', Some ''payments'', Some ''7'']
   \<and> default_regexp (name vm_plain) = None
   \<and> resourcePreview
        (initial_studio\<lparr>mode := REGEX, regexGroups := [(1, ''env''), (4, ''env''), (2, ''app'')]\<rparr>)
        (Some default_regexp) vm_plain = (labels vm_plain, [])
   \<and> fst (resourcePreview
        (initial_studio\<lparr>mode := REGEX, regexGroups := [(1, ''env''), (4, ''env''), (2, ''app'')]\<rparr>)
        (Some default_regexp) vm_other) ''env'' = Some ''staging''
   \<and> resourcePreview
        (initial_studio\<lparr>mode := REGEX, regexGroups := [(1, ''env''), (4, ''env''), (2, ''app'')]\<rparr>)
        (Some default_regexp) vm_other
      = resourcePreview
        (initial_studio\<lparr>mode := REGEX, regexGroups := [(1, ''env''), (2, ''app'')]\<rparr>)
        (Some default_regexp) vm_other"
proof -
  let ?st = "initial_studio\<lparr>mode := REGEX, regexGroups := [(1, ''env''), (4, ''env''), (2, ''app'')]\<rparr>"
  let ?m = "[Some ''staging-payments-7'', Some ''staging'', Some ''payments'', Some ''7'']"
  have m: "mode ?st = REGEX" by (simp add: initial_studio_def)
  have e: "sample_RegExp (regexPattern ?st) = Inr default_regexp"
    by (simp add: initial_studio_def sample_RegExp_default)
  have g: "default_regexp (name vm_other) = Some ?m"
    by (simp add: vm_other_def default_regexp_staging)
  have n: "default_regexp (name vm_plain) = None"
    by (simp add: vm_plain_def default_regexp_not_matching)
  have a1: "at_index ?m 1 = Some (Some ''staging'')" and a4: "at_index ?m 4 = None"
    by (simp_all add: at_index_def)
  note t1 = regex_sets_groups[where new_RegExp = sample_RegExp and st = ?st
      and rx = default_regexp and r = vm_plain, OF m e]
  note t2 = regex_sets_groups[where new_RegExp = sample_RegExp and st = ?st
      and rx = default_regexp and r = vm_other, OF m e]
  have c1: "resourcePreview ?st (Some default_regexp) vm_plain = (labels vm_plain, [])"
    using t1 n by blast
  have c2: "fst (resourcePreview ?st (Some default_regexp) vm_other) ''env'' = Some ''staging''"
    by (rule t2[THEN conjunct2, THEN conjunct2, THEN conjunct1, rule_format,
          where m = ?m and i = 1 and pre = "[]" and post = "[(4, ''env''), (2, ''app'')]"])
       (auto simp: initial_studio_def g a1 a4)
  have c3: "resourcePreview ?st (Some default_regexp) vm_other =
              resourcePreview (?st\<lparr>regexGroups := [(1, ''env'')] @ [(2, ''app'')]\<rparr>)
                (Some default_regexp) vm_other"
    by (rule t2[THEN conjunct2, THEN conjunct2, THEN conjunct2, THEN conjunct1, rule_format,
          where m = ?m and i = 4 and k = "''env''"])
       (simp add: initial_studio_def g a4)
  show ?thesis using m e g n c1 c2 c3 by (simp add: initial_studio_def)
qed

text \<open>
  Three runs at which the claim as first stated fails. The test
  \<^verbatim>\<open>key && match[index]\<close> is one of truthiness: on the name \<open>-x\<close> the group of
  \<^verbatim>\<open>^([a-z]*)-x$\<close> takes part in the match and captures the empty string, and the
  label is not set. Of two mappings for the key \<open>env\<close> the later one decides the
  candidate map. And the write of the key \<^verbatim>\<open>__proto__\<close> stores nothing.
\<close>

theorem regex_capture_counterexample:
  "star_regexp ''-x'' = Some [Some ''-x'', Some '''']
   \<and> at_index [Some ''-x'', Some ''''] 1 = Some (Some '''')
   \<and> fst (resourcePreview
            (initial_studio\<lparr>mode := REGEX, regexPattern := star_pattern,
                             regexGroups := [(1, ''env'')]\<rparr>)
            (Some star_regexp)
            \<lparr>res_id = ''r1'', name = ''-x'', labels = Map.empty\<rparr>) ''env'' = None
   \<and> default_regexp ''staging-payments-7'' =
        Some [Some ''staging-payments-7'', Some ''staging'', Some ''payments'', Some ''7'']
   \<and> fst (resourcePreview
            (initial_studio\<lparr>mode := REGEX, regexGroups := [(1, ''env''), (2, ''env'')]\<rparr>)
            (Some default_regexp)
            \<lparr>res_id = ''r1'', name = ''staging-payments-7'', labels = Map.empty\<rparr>) ''env''
       = Some ''payments''
   \<and> fst (resourcePreview
            (initial_studio\<lparr>mode := REGEX, regexGroups := [(1, ''__proto__'')]\<rparr>)
            (Some default_regexp)
            \<lparr>res_id = ''r1'', name = ''staging-payments-7'', labels = Map.empty\<rparr>) ''__proto__''
       = None"
  by (simp add: star_regexp_empty default_regexp_staging at_index_def resourcePreview_def
      initial_studio_def regexStep_def processChange_def set_prop_def)

section \<open>The Pattern strategy\<close>

text \<open>
  C5, amended. The name is split at the delimiter. A mapping with a non-empty key
  other than \<^verbatim>\<open>__proto__\<close> whose position indexes a non-empty token sets that key to
  the token in the candidate map, unless a later mapping for the same key indexes a
  non-empty token too, which then overwrites it. A mapping whose position is out of
  range, or indexes an empty token, is passed over: the result is the one of the
  mapping list without it. The name \<open>prod-web-42\<close> with delimiter \<open>-\<close> and the mappings
  \<open>(0, env)\<close>, \<open>(1, app)\<close> gives a candidate map with \<open>env = prod\<close> and \<open>app = web\<close>.
\<close>

theorem pattern_sets_token:
  assumes "mode st = PATTERN"
  shows "(\<forall>pre p k post t.
            mappings st = pre @ (p, k) # post \<and> k \<noteq> [] \<and> k \<noteq> ''__proto__''
            \<and> at_index (js_split (name r) (delimiter st)) p = Some t \<and> t \<noteq> []
            \<and> (\<forall>p'. (p', k) \<in> set post \<longrightarrow>
                  at_index (js_split (name r) (delimiter st)) p' = None
                  \<or> at_index (js_split (name r) (delimiter st)) p' = Some [])
          \<longrightarrow> fst (resourcePreview st regex r) k = Some t)
       \<and> (\<forall>pre p k post.
            mappings st = pre @ (p, k) # post
            \<and> (at_index (js_split (name r) (delimiter st)) p = None
                \<or> at_index (js_split (name r) (delimiter st)) p = Some [])
          \<longrightarrow> resourcePreview st regex r = resourcePreview (st\<lparr>mappings := pre @ post\<rparr>) regex r)
       \<and> fst (resourcePreview
                (initial_studio\<lparr>mode := PATTERN, mappings := [(0, ''env''), (1, ''app'')]\<rparr>)
                regex \<lparr>res_id = i, name = ''prod-web-42'', labels = l\<rparr>) ''env'' = Some ''prod''
       \<and> fst (resourcePreview
                (initial_studio\<lparr>mode := PATTERN, mappings := [(0, ''env''), (1, ''app'')]\<rparr>)
                regex \<lparr>res_id = i, name = ''prod-web-42'', labels = l\<rparr>) ''app'' = Some ''web''"
proof -
  let ?parts = "js_split (name r) (delimiter st)"
  have 1: "\<forall>pre p k post t.
            mappings st = pre @ (p, k) # post \<and> k \<noteq> [] \<and> k \<noteq> ''__proto__''
            \<and> at_index ?parts p = Some t \<and> t \<noteq> []
            \<and> (\<forall>p'. (p', k) \<in> set post \<longrightarrow>
                  at_index ?parts p' = None \<or> at_index ?parts p' = Some [])
          \<longrightarrow> fst (resourcePreview st regex r) k = Some t"
  proof (intro allI impI)
    fix pre p k post t
    assume h: "mappings st = pre @ (p, k) # post \<and> k \<noteq> [] \<and> k \<noteq> ''__proto__''
            \<and> at_index ?parts p = Some t \<and> t \<noteq> []
            \<and> (\<forall>p'. (p', k) \<in> set post \<longrightarrow>
                  at_index ?parts p' = None \<or> at_index ?parts p' = Some [])"
    have fr: "patternRule ?parts (p, k) = Some (k, t)" using h by (intro patternRule_Some) auto
    have later: "\<forall>row' \<in> set post. \<forall>v. patternRule ?parts row' \<noteq> Some (k, v)"
    proof (intro ballI allI notI)
      fix row' v assume r': "row' \<in> set post" and e: "patternRule ?parts row' = Some (k, v)"
      obtain p' k' where row': "row' = (p', k')" by (cases row')
      have "k' = k" using e keyed_pattern[of ?parts "[row']"] by (auto simp: keyed_def row')
      then have "patternRule ?parts (p', k) = None"
        using h r' row' by (intro patternRule_None) auto
      then show False using e row' \<open>k' = k\<close> by simp
    qed
    have "assign_all (labels r) (List.map_filter (patternRule ?parts) (pre @ (p, k) # post)) k
            = Some t"
      using fr later h by (intro last_call_wins) auto
    moreover have "fst (resourcePreview st regex r) =
            assign_all (labels r) (List.map_filter (patternRule ?parts) (mappings st))"
      by (simp only: resourcePreview_pattern[OF assms] fold_ruleStep_fst fst_conv)
    moreover have "mappings st = pre @ (p, k) # post" using h by simp
    ultimately show "fst (resourcePreview st regex r) k = Some t" by simp
  qed
  have 2: "\<forall>pre p k post.
            mappings st = pre @ (p, k) # post
            \<and> (at_index ?parts p = None \<or> at_index ?parts p = Some [])
          \<longrightarrow> resourcePreview st regex r = resourcePreview (st\<lparr>mappings := pre @ post\<rparr>) regex r"
  proof (intro allI impI)
    fix pre p k post
    assume h: "mappings st = pre @ (p, k) # post
            \<and> (at_index ?parts p = None \<or> at_index ?parts p = Some [])"
    then have "patternRule ?parts (p, k) = None" by (intro patternRule_None) simp
    then have "fold (\<lambda>row. ruleStep (labels r) (patternRule ?parts row)) (pre @ (p, k) # post)
                 (labels r, [])
               = fold (\<lambda>row. ruleStep (labels r) (patternRule ?parts row)) (pre @ post)
                 (labels r, [])"
      by (rule fold_ruleStep_skip)
    then show "resourcePreview st regex r = resourcePreview (st\<lparr>mappings := pre @ post\<rparr>) regex r"
      using h assms by (simp add: resourcePreview_pattern)
  qed
  have 3: "fst (resourcePreview
                (initial_studio\<lparr>mode := PATTERN, mappings := [(0, ''env''), (1, ''app'')]\<rparr>)
                regex \<lparr>res_id = i, name = ''prod-web-42'', labels = l\<rparr>) ''env'' = Some ''prod''"
    by (simp add: resourcePreview_def initial_studio_def split_prod patternStep_def at_index_def
        processChange_def set_prop_def)
  have 4: "fst (resourcePreview
                (initial_studio\<lparr>mode := PATTERN, mappings := [(0, ''env''), (1, ''app'')]\<rparr>)
                regex \<lparr>res_id = i, name = ''prod-web-42'', labels = l\<rparr>) ''app'' = Some ''web''"
    by (simp add: resourcePreview_def initial_studio_def split_prod patternStep_def at_index_def
        processChange_def set_prop_def)
  show ?thesis using 1 2 3 4 by blast
qed

text \<open>The mappings \<open>(0, env)\<close>, \<open>(7, env)\<close>, \<open>(1, app)\<close> on the name \<open>prod-web-42\<close>.\<close>

theorem pattern_sets_token_witness:
  "mode (initial_studio\<lparr>mode := PATTERN, mappings := [(0, ''env''), (7, ''env''), (1, ''app'')]\<rparr>)
     = PATTERN
   \<and> at_index (js_split (name vm_labelled) ''-'') 0 = Some ''prod''
   \<and> at_index (js_split (name vm_labelled) ''-'') 7 = None
   \<and> fst (resourcePreview
        (initial_studio\<lparr>mode := PATTERN, mappings := [(0, ''env''), (7, ''env''), (1, ''app'')]\<rparr>)
        None vm_labelled) ''env'' = Some ''prod''
   \<and> resourcePreview
        (initial_studio\<lparr>mode := PATTERN, mappings := [(0, ''env''), (7, ''env''), (1, ''app'')]\<rparr>)
        None vm_labelled
     = resourcePreview
        (initial_studio\<lparr>mode := PATTERN, mappings := [(0, ''env''), (1, ''app'')]\<rparr>)
        None vm_labelled"
proof -
  let ?st = "initial_studio\<lparr>mode := PATTERN, mappings := [(0, ''env''), (7, ''env''), (1, ''app'')]\<rparr>"
  have m: "mode ?st = PATTERN" by (simp add: initial_studio_def)
  have a0: "at_index (js_split (name vm_labelled) ''-'') 0 = Some ''prod''"
    and a7: "at_index (js_split (name vm_labelled) ''-'') 7 = None"
    by (simp_all add: js_split_def vm_labelled_def at_index_def)
  note t = pattern_sets_token[OF m, of vm_labelled None]
  have c1: "fst (resourcePreview ?st None vm_labelled) ''env'' = Some ''prod''"
    by (rule t[THEN conjunct1, rule_format, where pre = "[]" and p = 0
          and post = "[(7, ''env''), (1, ''app'')]"])
       (auto simp: initial_studio_def a0 a7)
  have c2: "resourcePreview ?st None vm_labelled =
              resourcePreview (?st\<lparr>mappings := [(0, ''env'')] @ [(1, ''app'')]\<rparr>) None vm_labelled"
    by (rule t[THEN conjunct2, THEN conjunct1, rule_format, where p = 7 and k = "''env''"])
       (simp add: initial_studio_def a7)
  show ?thesis using m a0 a7 c1 c2 by (simp add: initial_studio_def)
qed

text \<open>
  Three runs at which the claim as first stated fails. The test
  \<^verbatim>\<open>key && parts[position]\<close> is one of truthiness: in \<open>prod--42\<close> position \<open>1\<close> indexes a
  token, the empty one, and the label is not set. Of two mappings for the key \<open>env\<close>
  the later one decides the candidate map. And the write of the key \<^verbatim>\<open>__proto__\<close>
  stores nothing.
\<close>

theorem pattern_token_counterexample:
  "at_index (js_split ''prod--42'' ''-'') 1 = Some ''''
   \<and> fst (resourcePreview (initial_studio\<lparr>mode := PATTERN, mappings := [(1, ''app'')]\<rparr>) None
          \<lparr>res_id = ''r1'', name = ''prod--42'', labels = Map.empty\<rparr>) ''app'' = None
   \<and> at_index (js_split ''prod-web-42'' ''-'') 0 = Some ''prod''
   \<and> fst (resourcePreview
          (initial_studio\<lparr>mode := PATTERN, mappings := [(0, ''env''), (1, ''env'')]\<rparr>) None
          \<lparr>res_id = ''r1'', name = ''prod-web-42'', labels = Map.empty\<rparr>) ''env'' = Some ''web''
   \<and> fst (resourcePreview
          (initial_studio\<lparr>mode := PATTERN, mappings := [(0, ''__proto__'')]\<rparr>) None
          \<lparr>res_id = ''r1'', name = ''prod-web-42'', labels = Map.empty\<rparr>) ''__proto__'' = None"
proof -
  have s: "js_split ''prod--42'' ''-'' = [''prod'', '''', ''42'']"
    by (simp add: js_split_def)
  show ?thesis
    by (simp add: s split_prod at_index_def resourcePreview_def initial_studio_def patternStep_def
        processChange_def set_prop_def)
qed

section \<open>Cleanup\<close>

text \<open>
  C6. The claim is that a listed key which the resource does not carry contributes
  no change, and that listing a key twice is the same as listing it once. The code
  departs from it for a key that names an inherited member: the resource labelled
  \<open>env = prod\<close> has no label \<open>constructor\<close>, yet listing that key gives one \<open>DELETE\<close>
  record whose old value is the inherited function and puts the resource into the
  preview, and listing it twice gives two records, while the candidate map stays
  the original.
\<close>

theorem cleanup_inherited_key:
  "labels vm_labelled ''constructor'' = None
   \<and> resourcePreview (initial_studio\<lparr>mode := CLEANUP, keysToRemove := [''constructor'']\<rparr>)
        None vm_labelled
     = ([''env'' \<mapsto> ''prod''], [DELETE ''constructor'' (Proto ''constructor'')])
   \<and> resourcePreview
        (initial_studio\<lparr>mode := CLEANUP, keysToRemove := [''constructor'', ''constructor'']\<rparr>)
        None vm_labelled
     = ([''env'' \<mapsto> ''prod''],
        [DELETE ''constructor'' (Proto ''constructor''),
         DELETE ''constructor'' (Proto ''constructor'')])
   \<and> map_keys (previewData sample_RegExp
        (initial_studio\<lparr>mode := CLEANUP, keysToRemove := [''constructor'']\<rparr>) [vm_labelled])
     = [''r1'']"
  by (simp add: eval_defs)

section \<open>The validity gate of the apply action\<close>

text \<open>
  C7, amended. The flag is true exactly when: in Static mode, some row has a
  non-empty key that passes key validation with a value that passes value
  validation, the value being empty or not, and no row that is not completely
  empty (its key or its value is non-empty) has a validation error; in Pattern and
  Regex mode, some mapping has a non-empty key; in Cleanup mode, some listed key is
  non-empty.
\<close>

theorem validity_gate:
  "isValid validateKey validateValue st =
     (case mode st of
        STATIC \<Rightarrow>
          (\<exists>(key, v) \<in> set (staticLabels st).
              key \<noteq> [] \<and> \<not> truthy (validateKey key) \<and> \<not> truthy (validateValue v))
          \<and> (\<forall>(key, v) \<in> set (staticLabels st).
                (key \<noteq> [] \<or> v \<noteq> []) \<longrightarrow>
                  \<not> truthy (validateKey key) \<and> \<not> truthy (validateValue v))
      | PATTERN \<Rightarrow> (\<exists>(position, key) \<in> set (mappings st). key \<noteq> [])
      | REGEX \<Rightarrow> (\<exists>(index, key) \<in> set (regexGroups st). key \<noteq> [])
      | CLEANUP \<Rightarrow> (\<exists>k \<in> set (keysToRemove st). k \<noteq> []))"
proof (cases "mode st")
  case STATIC
  note e = hasErrors_iff[of validateKey validateValue "staticLabels st"]
  show ?thesis using STATIC
    by (simp add: isValid_def Let_def filter_empty_conv e) auto
next
  case PATTERN
  then show ?thesis by (simp add: isValid_def list_ex_iff)
next
  case REGEX
  then show ?thesis by (simp add: isValid_def list_ex_iff)
next
  case CLEANUP
  then show ?thesis by (simp add: isValid_def list_ex_iff)
qed

text \<open>
  The gate with a key validator that rejects the empty key and a value validator
  that accepts every value, on six states; the second has a row with a value and no
  key, the third a row with a key and no value.
\<close>

theorem validity_gate_witness:
  "isValid required_key any_value (initial_studio\<lparr>staticLabels := [(''env'', ''prod''), ('''', '''')]\<rparr>)
   \<and> \<not> isValid required_key any_value
         (initial_studio\<lparr>staticLabels := [(''env'', ''prod''), ('''', ''x'')]\<rparr>)
   \<and> isValid required_key any_value (initial_studio\<lparr>staticLabels := [(''env'', '''')]\<rparr>)
   \<and> \<not> isValid required_key any_value initial_studio
   \<and> isValid required_key any_value (initial_studio\<lparr>mode := REGEX\<rparr>)
   \<and> \<not> isValid required_key any_value (initial_studio\<lparr>mode := CLEANUP\<rparr>)"
  using validity_gate[of required_key any_value
          "initial_studio\<lparr>staticLabels := [(''env'', ''prod''), ('''', '''')]\<rparr>"]
        validity_gate[of required_key any_value
          "initial_studio\<lparr>staticLabels := [(''env'', ''prod''), ('''', ''x'')]\<rparr>"]
        validity_gate[of required_key any_value
          "initial_studio\<lparr>staticLabels := [(''env'', '''')]\<rparr>"]
        validity_gate[of required_key any_value initial_studio]
        validity_gate[of required_key any_value "initial_studio\<lparr>mode := REGEX\<rparr>"]
        validity_gate[of required_key any_value "initial_studio\<lparr>mode := CLEANUP\<rparr>"]
  by (simp add: initial_studio_def required_key_def any_value_def truthy_def)

text \<open>
  Two states at which the gate differs from the specification's wording, with the
  same two validators. \<^verbatim>\<open>staticLabelErrors\<close> passes over the completely empty rows
  only: a row with a value and an empty key is validated and closes the gate,
  although no row with a non-empty key has an error. And the filter for the valid
  rows tests the key for emptiness but not the value: the row \<open>env\<close> with an empty
  value opens the gate.
\<close>

theorem validity_gate_counterexample:
  "isValid_spec required_key any_value
      (initial_studio\<lparr>staticLabels := [(''env'', ''prod''), ('''', ''x'')]\<rparr>)
   \<and> \<not> isValid required_key any_value
         (initial_studio\<lparr>staticLabels := [(''env'', ''prod''), ('''', ''x'')]\<rparr>)
   \<and> isValid required_key any_value (initial_studio\<lparr>staticLabels := [(''env'', '''')]\<rparr>)
   \<and> \<not> isValid_spec required_key any_value
         (initial_studio\<lparr>staticLabels := [(''env'', '''')]\<rparr>)"
  by (simp add: isValid_spec_def isValid_def staticLabelErrors_def initial_studio_def
      required_key_def any_value_def truthy_def)

section \<open>Groups, pages and the page reset\<close>

text \<open>
  C8, amended. With a grouping key the display sequence is, for the keys of the
  groups in ascending order of their text, the block of each group: its header alone
  when the group is collapsed, its header followed by all its members when it is
  expanded. The page is the slice of this flattened sequence, and the page count is
  the number of items divided by the page size, rounded up. When the current page
  exceeds a page count that is positive, the render that computes the count still
  slices at the current page and shows the empty page beyond the last one; the
  effect after it sets the page to 1, and the next render shows the first page,
  which is not empty. When there is no page at all, the sequence is empty and the
  current page stays as it is.
\<close>

theorem grouped_pagination:
  assumes "0 < itemsPerPage" and "1 \<le> currentPage"
    and "items = displayItems toText rs groupByLabel cg"
    and "pages = totalPages (length items) itemsPerPage"
  shows "(groupByLabel \<noteq> [] \<longrightarrow>
            (\<exists>keys. distinct keys \<and> set keys = groupValue groupByLabel ` set rs
                \<and> sorted (map (js_text toText) keys)
                \<and> items = concat (map (groupBlock groupByLabel rs cg) keys)))
       \<and> (groupByLabel = [] \<longrightarrow> items = map Resource rs)
       \<and> (\<forall>k. groupBlock groupByLabel rs cg k =
              (if k \<in> cg then [Header k k (length (groupMembers groupByLabel rs k)) True]
               else Header k k (length (groupMembers groupByLabel rs k)) False
                      # map Resource (groupMembers groupByLabel rs k)))
       \<and> paginatedDisplayItems items currentPage itemsPerPage
            = take itemsPerPage (drop (nat (currentPage - 1) * itemsPerPage) items)
       \<and> length items \<le> pages * itemsPerPage \<and> pages * itemsPerPage < length items + itemsPerPage
       \<and> (currentPage > int pages \<and> pages > 0 \<longrightarrow>
              renderPage items currentPage itemsPerPage = ([], 1)
            \<and> renderPage items 1 itemsPerPage = (take itemsPerPage items, 1)
            \<and> take itemsPerPage items \<noteq> [])
       \<and> (pages > 0 \<longrightarrow> 1 \<le> pageEffect currentPage pages
                          \<and> pageEffect currentPage pages \<le> int pages)
       \<and> (pages = 0 \<longrightarrow> items = [] \<and> renderPage items currentPage itemsPerPage = ([], currentPage))"
proof -
  have 1: "groupByLabel \<noteq> [] \<longrightarrow>
            (\<exists>keys. distinct keys \<and> set keys = groupValue groupByLabel ` set rs
                \<and> sorted (map (js_text toText) keys)
                \<and> items = concat (map (groupBlock groupByLabel rs cg) keys))"
  proof
    assume g: "groupByLabel \<noteq> []"
    let ?keys = "sort_key (js_text toText) (map_keys (fold (groupStep groupByLabel) rs []))"
    have "items = concat (map (groupBlock groupByLabel rs cg) ?keys)"
      unfolding assms(3) by (rule displayItems_blocks[OF g])
    then show "\<exists>keys. distinct keys \<and> set keys = groupValue groupByLabel ` set rs
                \<and> sorted (map (js_text toText) keys)
                \<and> items = concat (map (groupBlock groupByLabel rs cg) keys)"
      using group_keys_sorted[of toText groupByLabel rs] by blast
  qed
  have 2: "groupByLabel = [] \<longrightarrow> items = map Resource rs"
    using assms(3) by (simp add: displayItems_def)
  have 3: "\<forall>k. groupBlock groupByLabel rs cg k =
              (if k \<in> cg then [Header k k (length (groupMembers groupByLabel rs k)) True]
               else Header k k (length (groupMembers groupByLabel rs k)) False
                      # map Resource (groupMembers groupByLabel rs k))"
    by (simp add: groupBlock_def)
  have 4: "paginatedDisplayItems items currentPage itemsPerPage
            = take itemsPerPage (drop (nat (currentPage - 1) * itemsPerPage) items)"
    by (rule paginated_eq[OF assms(1,2)])
  have 5: "length items \<le> pages * itemsPerPage"
    and 6: "pages * itemsPerPage < length items + itemsPerPage"
    unfolding assms(4) by (rule totalPages_bounds[OF assms(1)])+
  have 7: "currentPage > int pages \<and> pages > 0 \<longrightarrow>
              renderPage items currentPage itemsPerPage = ([], 1)
            \<and> renderPage items 1 itemsPerPage = (take itemsPerPage items, 1)
            \<and> take itemsPerPage items \<noteq> []"
  proof
    assume h: "currentPage > int pages \<and> pages > 0"
    have e: "paginatedDisplayItems items currentPage itemsPerPage = []"
      using h 5 by (intro paginated_beyond[OF assms(1)]) auto
    have ne: "items \<noteq> []"
      using h totalPages_zero[OF assms(1), of "length items"] assms(4) by auto
    have a: "renderPage items currentPage itemsPerPage = ([], 1)"
      using h e by (simp add: renderPage_def pageEffect_def assms(4)[symmetric])
    have b: "renderPage items 1 itemsPerPage = (take itemsPerPage items, 1)"
      using h by (simp add: renderPage_def pageEffect_def assms(4)[symmetric]
          paginated_first[OF assms(1)])
    have c: "take itemsPerPage items \<noteq> []" using ne assms(1) by simp
    show "renderPage items currentPage itemsPerPage = ([], 1)
            \<and> renderPage items 1 itemsPerPage = (take itemsPerPage items, 1)
            \<and> take itemsPerPage items \<noteq> []"
      using a b c by simp
  qed
  have 8: "pages > 0 \<longrightarrow> 1 \<le> pageEffect currentPage pages
                          \<and> pageEffect currentPage pages \<le> int pages"
    using assms(2) by (auto simp: pageEffect_def)
  have 9: "pages = 0 \<longrightarrow> items = [] \<and> renderPage items currentPage itemsPerPage = ([], currentPage)"
  proof
    assume z: "pages = 0"
    then have i: "items = []" using totalPages_zero[OF assms(1), of "length items"] assms(4) by simp
    have "renderPage [] currentPage itemsPerPage = ([], currentPage)"
      using assms(1) by (simp add: renderPage_def pageEffect_def totalPages_def
          paginatedDisplayItems_def js_slice_def Let_def)
    then show "items = [] \<and> renderPage items currentPage itemsPerPage = ([], currentPage)"
      using i by simp
  qed
  show ?thesis using 1 2 3 4 5 6 7 8 9 by blast
qed

text \<open>
  Four resources grouped by \<open>env\<close> with page size 2: seven items on four pages;
  collapsing the group \<open>Unassigned\<close> leaves five items on three pages, the render at
  page 4 shows nothing and resets the page, and the render at page 1 shows two
  headers.
\<close>

theorem grouped_pagination_witness:
  "(0::nat) < 2 \<and> (1::int) \<le> 4
   \<and> displayItems native_text [vm_labelled, vm_other, vm_plain, vm_dev] ''env'' {Str ''Unassigned''} =
     [Header (Str ''Unassigned'') (Str ''Unassigned'') 2 True,
      Header (Str ''dev'') (Str ''dev'') 1 False, Resource vm_dev,
      Header (Str ''prod'') (Str ''prod'') 1 False, Resource vm_labelled]
   \<and> totalPages (length (displayItems native_text [vm_labelled, vm_other, vm_plain, vm_dev]
                              ''env'' {})) 2 = 4
   \<and> totalPages (length (displayItems native_text [vm_labelled, vm_other, vm_plain, vm_dev]
                              ''env'' {Str ''Unassigned''})) 2 = 3
   \<and> renderPage (displayItems native_text [vm_labelled, vm_other, vm_plain, vm_dev]
                   ''env'' {Str ''Unassigned''}) 4 2 = ([], 1)
   \<and> renderPage (displayItems native_text [vm_labelled, vm_other, vm_plain, vm_dev]
                   ''env'' {Str ''Unassigned''}) 1 2
       = ([Header (Str ''Unassigned'') (Str ''Unassigned'') 2 True,
           Header (Str ''dev'') (Str ''dev'') 1 False], 1)"
proof -
  let ?rs = "[vm_labelled, vm_other, vm_plain, vm_dev]"
  let ?items = "displayItems native_text ?rs ''env'' {Str ''Unassigned''}"
  have p: "(0::nat) < 2" and c: "(1::int) \<le> 4" by simp_all
  have t3: "totalPages (length ?items) 2 = 3"
    by (simp add: display_example_collapsed totalPages_def)
  have t4: "totalPages (length (displayItems native_text ?rs ''env'' {})) 2 = 4"
    by (simp add: display_example_expanded totalPages_def)
  note g = grouped_pagination[where toText = native_text and rs = ?rs and groupByLabel = "''env''"
      and cg = "{Str ''Unassigned''}", OF p c refl t3[symmetric]]
  have "renderPage ?items 4 2 = ([], 1) \<and> renderPage ?items 1 2 = (take 2 ?items, 1)"
    using g by simp
  then show ?thesis using t3 t4 by (simp add: display_example_collapsed)
qed

text \<open>
  Two renders at which the claim as first stated fails. The effect tests
  \<^verbatim>\<open>totalPages > 0\<close>: when the filter leaves no resource there is no page, page 3
  exceeds the page count and is not reset. And the slice is computed in the render,
  before the effect runs: at page 4 of 3 the render shows the empty page 4.
\<close>

theorem page_reset_counterexample:
  "displayItems native_text [] ''env'' {} = []
   \<and> totalPages (length (displayItems native_text [] ''env'' {})) 10 = 0
   \<and> renderPage (displayItems native_text [] ''env'' {}) 3 10 = ([], 3)
   \<and> totalPages (length (displayItems native_text [vm_labelled, vm_other, vm_plain, vm_dev]
                              ''env'' {Str ''Unassigned''})) 2 = 3
   \<and> renderPage (displayItems native_text [vm_labelled, vm_other, vm_plain, vm_dev]
                   ''env'' {Str ''Unassigned''}) 4 2 = ([], 1)"
proof -
  have a: "displayItems native_text [] ''env'' {} = []"
    by (simp add: displayItems_def map_keys_def)
  have b: "renderPage [] 3 10 = ([], 3)"
    by (simp add: renderPage_def pageEffect_def totalPages_def paginatedDisplayItems_def
        js_slice_def)
  have c: "renderPage (displayItems native_text [vm_labelled, vm_other, vm_plain, vm_dev]
                   ''env'' {Str ''Unassigned''}) 4 2 = ([], 1)"
    by (simp add: display_example_collapsed renderPage_def pageEffect_def totalPages_def
        paginatedDisplayItems_def js_slice_def)
  show ?thesis using a b c by (simp add: display_example_collapsed totalPages_def)
qed

section \<open>The preview computation is pure\<close>

text \<open>
  C9. Two runs of the preview computation with the same mode and parameters, on
  stores in which the selected resources have the same ids, names and label maps,
  produce the same preview map: the same ids in the same order with the same
  original maps, candidate maps and change lists, namely those that the function
  \<open>previewData\<close> computes from the contents. A run leaves every label object of its
  input store as it was, writing only to the copies it allocates behind them, so
  every selected resource has the same id, name and labels after the run as before,
  also when two resources share one label object.
\<close>

theorem preview_pure_deterministic:
  assumes "\<forall>r \<in> set rs1. h_labels r < length h1"
    and "\<forall>r \<in> set rs2. h_labels r < length h2"
    and "map (read_resource h1) rs1 = map (read_resource h2) rs2"
    and "h_previewData new_RegExp st rs1 h1 = (h1', pd1)"
    and "h_previewData new_RegExp st rs2 h2 = (h2', pd2)"
  shows "read_updates h1' pd1 = read_updates h2' pd2
       \<and> read_updates h1' pd1 = previewData new_RegExp st (map (read_resource h1) rs1)
       \<and> take (length h1) h1' = h1
       \<and> map (read_resource h1') rs1 = map (read_resource h1) rs1"
proof -
  from h_previewData_sim[OF assms(1), of new_RegExp st] assms(4)
  obtain ext1 where e1: "h1' = h1 @ ext1"
    and r1: "read_updates h1' pd1 = previewData new_RegExp st (map (read_resource h1) rs1)"
    by auto
  from h_previewData_sim[OF assms(2), of new_RegExp st] assms(5)
  obtain ext2 where e2: "h2' = h2 @ ext2"
    and r2: "read_updates h2' pd2 = previewData new_RegExp st (map (read_resource h2) rs2)"
    by auto
  have a: "read_updates h1' pd1 = read_updates h2' pd2" using r1 r2 assms(3) by simp
  have c: "take (length h1) h1' = h1" using e1 by simp
  have d: "map (read_resource h1') rs1 = map (read_resource h1) rs1"
    unfolding e1 using assms(1) by (simp add: read_resource_extend)
  show ?thesis using a r1 c d by blast
qed

text \<open>
  Two resources that share one label object, and the same two resources in a store
  laid out differently: the run updates \<open>env\<close> in two fresh copies, leaves the shared
  object alone, and both runs read the same preview map.
\<close>

theorem preview_pure_deterministic_witness:
  "h_labels (hvm1 0) < length [[''env'' \<mapsto> ''prod'']]
   \<and> h_labels (hvm2 0) < length [[''env'' \<mapsto> ''prod'']]
   \<and> h_labels (hvm1 2)
         < length [[''team'' \<mapsto> ''x''], [''env'' \<mapsto> ''prod''], [''env'' \<mapsto> ''prod'']]
   \<and> h_labels (hvm2 1)
         < length [[''team'' \<mapsto> ''x''], [''env'' \<mapsto> ''prod''], [''env'' \<mapsto> ''prod'']]
   \<and> map (read_resource [[''env'' \<mapsto> ''prod'']]) [hvm1 0, hvm2 0]
       = map (read_resource [[''team'' \<mapsto> ''x''], [''env'' \<mapsto> ''prod''], [''env'' \<mapsto> ''prod'']])
           [hvm1 2, hvm2 1]
   \<and> h_previewData sample_RegExp (initial_studio\<lparr>staticLabels := [(''env'', ''dev'')]\<rparr>)
         [hvm1 0, hvm2 0] [[''env'' \<mapsto> ''prod'']]
       = ([[''env'' \<mapsto> ''prod''], [''env'' \<mapsto> ''dev''], [''env'' \<mapsto> ''dev'']],
          [(''r1'', \<lparr>h_original = 0, h_new = 1, h_changes = [UPDATE ''env'' (Str ''prod'') ''dev'']\<rparr>),
           (''r2'', \<lparr>h_original = 0, h_new = 2, h_changes = [UPDATE ''env'' (Str ''prod'') ''dev'']\<rparr>)])
   \<and> read_updates
         (fst (h_previewData sample_RegExp (initial_studio\<lparr>staticLabels := [(''env'', ''dev'')]\<rparr>)
                [hvm1 0, hvm2 0] [[''env'' \<mapsto> ''prod'']]))
         (snd (h_previewData sample_RegExp (initial_studio\<lparr>staticLabels := [(''env'', ''dev'')]\<rparr>)
                [hvm1 0, hvm2 0] [[''env'' \<mapsto> ''prod'']]))
       = read_updates
         (fst (h_previewData sample_RegExp (initial_studio\<lparr>staticLabels := [(''env'', ''dev'')]\<rparr>)
                [hvm1 2, hvm2 1]
                [[''team'' \<mapsto> ''x''], [''env'' \<mapsto> ''prod''], [''env'' \<mapsto> ''prod'']]))
         (snd (h_previewData sample_RegExp (initial_studio\<lparr>staticLabels := [(''env'', ''dev'')]\<rparr>)
                [hvm1 2, hvm2 1]
                [[''team'' \<mapsto> ''x''], [''env'' \<mapsto> ''prod''], [''env'' \<mapsto> ''prod'']]))"
proof -
  let ?st = "initial_studio\<lparr>staticLabels := [(''env'', ''dev'')]\<rparr>"
  let ?h1 = "[[''env'' \<mapsto> ''prod'']]"
  let ?h2 = "[[''team'' \<mapsto> ''x''], [''env'' \<mapsto> ''prod''], [''env'' \<mapsto> ''prod'']]"
  have w1: "\<forall>r \<in> set [hvm1 0, hvm2 0]. h_labels r < length ?h1"
    by (simp add: hvm1_def hvm2_def)
  have w2: "\<forall>r \<in> set [hvm1 2, hvm2 1]. h_labels r < length ?h2"
    by (simp add: hvm1_def hvm2_def)
  have eq: "map (read_resource ?h1) [hvm1 0, hvm2 0] = map (read_resource ?h2) [hvm1 2, hvm2 1]"
    by (simp add: read_resource_def hvm1_def hvm2_def)
  have run: "h_previewData sample_RegExp ?st [hvm1 0, hvm2 0] ?h1
       = ([[''env'' \<mapsto> ''prod''], [''env'' \<mapsto> ''dev''], [''env'' \<mapsto> ''dev'']],
          [(''r1'', \<lparr>h_original = 0, h_new = 1, h_changes = [UPDATE ''env'' (Str ''prod'') ''dev'']\<rparr>),
           (''r2'', \<lparr>h_original = 0, h_new = 2, h_changes = [UPDATE ''env'' (Str ''prod'') ''dev'']\<rparr>)])"
    by (simp add: h_previewData_def h_previewStep_def h_resourcePreview_def h_staticStep_def
        h_processChange_def compileRegex_def initial_studio_def hvm1_def hvm2_def
        get_prop_def set_prop_def)
  show ?thesis
    using preview_pure_deterministic[OF w1 w2 eq surjective_pairing surjective_pairing,
        of sample_RegExp ?st] w1 w2 eq run
    by simp
qed

section \<open>Labels that the rules leave alone\<close>

text \<open>
  C10. In the modes Static, Pattern and Regex the candidate label map of a resource
  has every key of the original map, and every key that no rule names keeps its
  original value, in the candidate map and in the apply payload.
\<close>

theorem rules_never_remove_labels:
  assumes "mode st \<noteq> CLEANUP"
  shows "dom (labels r) \<subseteq> dom (fst (resourcePreview st regex r))
       \<and> (\<forall>k. k \<notin> set (ruleKeys st) \<longrightarrow> fst (resourcePreview st regex r) k = labels r k)
       \<and> (distinct (map res_id rs) \<and> r \<in> set rs
            \<and> map_get (handleApply (previewData new_RegExp st rs)) (res_id r) = Some nl
          \<longrightarrow> dom (labels r) \<subseteq> dom nl
              \<and> (\<forall>k. k \<notin> set (ruleKeys st) \<longrightarrow> nl k = labels r k))"
proof -
  have 1: "dom (labels r) \<subseteq> dom (fst (resourcePreview st regex r))" for regex
    by (rule preview_keeps_keys[OF assms])
  have 2: "\<forall>k. k \<notin> set (ruleKeys st) \<longrightarrow> fst (resourcePreview st regex r) k = labels r k"
    for regex
    by (simp add: preview_untargeted[OF assms])
  have 3: "dom (labels r) \<subseteq> dom nl \<and> (\<forall>k. k \<notin> set (ruleKeys st) \<longrightarrow> nl k = labels r k)"
    if d: "distinct (map res_id rs)" and m: "r \<in> set rs"
      and g: "map_get (handleApply (previewData new_RegExp st rs)) (res_id r) = Some nl"
  proof -
    have "nl = fst (resourcePreview st (compileRegex new_RegExp st) r)"
      using g by (simp add: handleApply_lookup previewData_lookup[OF d m] entry_def
          split: if_splits)
    then show ?thesis using 1 2 by simp
  qed
  show ?thesis using 1 2 3 by blast
qed

text \<open>
  Pattern mode on two resources: the label \<open>team\<close> of the second one is in its
  payload entry beside the two extracted labels.
\<close>

theorem rules_never_remove_labels_witness:
  "mode (initial_studio\<lparr>mode := PATTERN, mappings := [(0, ''env''), (1, ''app'')]\<rparr>) \<noteq> CLEANUP
   \<and> distinct (map res_id [vm_labelled, vm_other]) \<and> vm_other \<in> set [vm_labelled, vm_other]
   \<and> map_get (handleApply (previewData sample_RegExp
         (initial_studio\<lparr>mode := PATTERN, mappings := [(0, ''env''), (1, ''app'')]\<rparr>)
         [vm_labelled, vm_other])) (res_id vm_other)
       = Some [''team'' \<mapsto> ''x'', ''env'' \<mapsto> ''staging'', ''app'' \<mapsto> ''payments'']
   \<and> ''team'' \<notin> set (ruleKeys
         (initial_studio\<lparr>mode := PATTERN, mappings := [(0, ''env''), (1, ''app'')]\<rparr>))
   \<and> dom (labels vm_other) \<subseteq> dom [''team'' \<mapsto> ''x'', ''env'' \<mapsto> ''staging'', ''app'' \<mapsto> ''payments'']"
proof -
  let ?st = "initial_studio\<lparr>mode := PATTERN, mappings := [(0, ''env''), (1, ''app'')]\<rparr>"
  let ?rs = "[vm_labelled, vm_other]"
  let ?nl = "[''team'' \<mapsto> ''x'', ''env'' \<mapsto> ''staging'', ''app'' \<mapsto> ''payments'']"
  have m: "mode ?st \<noteq> CLEANUP" by (simp add: initial_studio_def)
  have d: "distinct (map res_id ?rs)" by (simp add: vm_labelled_def vm_other_def)
  have i: "vm_other \<in> set ?rs" by simp
  have s1: "js_split ''prod-web-42'' ''-'' = [''prod'', ''web'', ''42'']"
    by (simp add: js_split_def)
  have s2: "js_split ''staging-payments-7'' ''-'' = [''staging'', ''payments'', ''7'']"
    by (simp add: js_split_def)
  have g: "map_get (handleApply (previewData sample_RegExp ?st ?rs)) (res_id vm_other) = Some ?nl"
    by (simp add: eval_defs s1 s2 at_index_def)
  have k: "''team'' \<notin> set (ruleKeys ?st)" by (simp add: ruleKeys_def initial_studio_def)
  show ?thesis
    using rules_never_remove_labels[where st = ?st and r = vm_other and rs = ?rs
        and new_RegExp = sample_RegExp and nl = ?nl and regex = None, OF m] m d i g k
    by simp
qed

end
